theory Spec2Isabelle
  imports Main
begin

section \<open>Strings and the services the program consumes\<close>

text \<open>
  A Python \<open>str\<close> is a sequence of Unicode code points, so a string is a list of
  code points (\<open>nat\<close>); \<open>ustr\<close> writes an ASCII literal. An element text of an XML
  document is a \<open>str\<close> or \<open>None\<close>, hence \<open>link\<close>.
\<close>

type_synonym ustring = "nat list"
type_synonym link = "ustring option"

definition ustr :: "string \<Rightarrow> ustring" where
  "ustr s = map of_char s"

text \<open>
  What \<open>BeautifulSoup(text, 'html.parser')\<close> gives, as far as \<open>main.py\<close> reads it:
  \<^item> \<open>content_texts\<close>: \<open>section.get_text(separator=" ", strip=True)\<close> of every
    \<open>section\<close> in \<open>soup.find_all(class_=target_classes)\<close>, in document order;
  \<^item> \<open>title_string\<close>: \<open>None\<close> when \<open>soup.title\<close> is \<open>None\<close>, otherwise
    \<open>soup.title.string\<close> (itself a \<open>str\<close> or \<open>None\<close>);
  \<^item> \<open>meta_tags\<close>: the attribute dictionary of every \<open>meta\<close> element, in document order.
\<close>

record soup =
  content_texts :: "ustring list"
  title_string :: "ustring option option"
  meta_tags :: "(ustring \<rightharpoonup> ustring) list"

text \<open>An \<open>xml.etree.ElementTree\<close> element: its tag, its text and its children.\<close>

datatype xml = Element (tag: ustring) (text_of: link) (children: "xml list")

text \<open>
  One \<open>session.get\<close> with \<open>await response.text()\<close>: either an exception (a timeout, a
  connection error, an undecodable body), or a status and a body.
\<close>

datatype reply = Failure | Response nat ustring

text \<open>
  Everything \<open>main.py\<close> takes from outside its own text is a field of \<open>env\<close>, so that
  every theorem holds whatever these are:
  \<^item> Python's Unicode tables: \<open>isalnum\<close> and \<open>isspace\<close> of one code point (what
    \<open>\w\<close> and \<open>\s\<close> of \<open>re\<close> test on a \<open>str\<close>; \<open>\w\<close> adds the underscore),
    \<open>decimal\<close> (the value of a decimal digit, what \<open>\d\<close> tests and \<open>int\<close> reads),
    \<open>lower\<close> (\<open>str.lower\<close>), \<open>caseless_eq p c\<close> (whether the pattern character
    \<open>p\<close> matches the text character \<open>c\<close> under \<open>re.IGNORECASE\<close>);
  \<^item> the parsers: \<open>html_parser\<close> and \<open>fromstring\<close> (\<open>ET.fromstring\<close>), \<open>None\<close> when
    they raise;
  \<^item> the network: \<open>session_get n url\<close> is the reply to the request for \<open>url\<close> issued
    after \<open>n\<close> earlier requests of the run.
\<close>

record env =
  isalnum :: "nat \<Rightarrow> bool"
  isspace :: "nat \<Rightarrow> bool"
  decimal :: "nat \<Rightarrow> nat option"
  lower :: "ustring \<Rightarrow> ustring"
  caseless_eq :: "nat \<Rightarrow> nat \<Rightarrow> bool"
  html_parser :: "ustring \<Rightarrow> soup option"
  fromstring :: "ustring \<Rightarrow> xml option"
  session_get :: "nat \<Rightarrow> ustring \<Rightarrow> reply"

section \<open>Regular expressions of \<open>re\<close>, as \<open>main.py\<close> uses them\<close>

text \<open>
  The patterns of \<open>main.py\<close> are sequences of: one character of a class (a literal
  character is the class of that character; \<open>re.escape\<close> makes every character of the
  phrase a literal), a greedy starred class, \<open>\b\<close>, \<open>(?<!\w)\<close> and \<open>(?!\w|$)\<close>.
\<close>

datatype atom =
    Chr "nat \<Rightarrow> bool"
  | Star "nat \<Rightarrow> bool"
  | WordB
  | NotAfterWord
  | NotBeforeWordOrEnd

definition wordchar :: "env \<Rightarrow> nat \<Rightarrow> bool" where
  "wordchar E c = (isalnum E c \<or> c = 95)"

text \<open>\<open>\b\<close>: exactly one of the characters before and at position \<open>i\<close> is a word character.\<close>

definition word_boundary :: "env \<Rightarrow> ustring \<Rightarrow> nat \<Rightarrow> bool" where
  "word_boundary E t i =
     ((0 < i \<and> i \<le> length t \<and> wordchar E (t ! (i - 1))) \<noteq> (i < length t \<and> wordchar E (t ! i)))"

text \<open>\<open>$\<close> without \<open>re.MULTILINE\<close>: the end of the string, or just before a newline that ends it.\<close>

definition at_end :: "ustring \<Rightarrow> nat \<Rightarrow> bool" where
  "at_end t i = (length t \<le> i \<or> (Suc i = length t \<and> t ! i = 10))"

fun first_match :: "(nat \<Rightarrow> nat option) \<Rightarrow> nat list \<Rightarrow> nat option" where
  "first_match f [] = None"
| "first_match f (e # es) = (case f e of Some r \<Rightarrow> Some r | None \<Rightarrow> first_match f es)"

text \<open>
  \<open>match_here E as t i\<close>: where the first match of the atoms \<open>as\<close> that starts at position
  \<open>i\<close> of \<open>t\<close> ends, in the order a backtracking matcher tries them: a greedy star takes
  as many characters as it can and gives them back one by one.
\<close>

primrec match_here :: "env \<Rightarrow> atom list \<Rightarrow> ustring \<Rightarrow> nat \<Rightarrow> nat option" where
  "match_here E [] t i = Some i"
| "match_here E (a # as) t i =
     (case a of
        Chr P \<Rightarrow> if i < length t \<and> P (t ! i) then match_here E as t (Suc i) else None
      | Star P \<Rightarrow>
          first_match (match_here E as t) (rev [i ..< Suc (i + length (takeWhile P (drop i t)))])
      | WordB \<Rightarrow> if word_boundary E t i then match_here E as t i else None
      | NotAfterWord \<Rightarrow>
          if 0 < i \<and> i \<le> length t \<and> wordchar E (t ! (i - 1)) then None else match_here E as t i
      | NotBeforeWordOrEnd \<Rightarrow>
          if (i < length t \<and> wordchar E (t ! i)) \<or> at_end t i then None else match_here E as t i)"

text \<open>\<open>re.search\<close>: the leftmost position with a match, as (start, end).\<close>

fun search_from :: "env \<Rightarrow> atom list \<Rightarrow> ustring \<Rightarrow> nat list \<Rightarrow> (nat \<times> nat) option" where
  "search_from E as t [] = None"
| "search_from E as t (s # ss) =
     (case match_here E as t s of Some e \<Rightarrow> Some (s, e) | None \<Rightarrow> search_from E as t ss)"

definition re_search :: "env \<Rightarrow> atom list \<Rightarrow> ustring \<Rightarrow> (nat \<times> nat) option" where
  "re_search E as t = search_from E as t [0 ..< Suc (length t)]"

text \<open>
  \<open>re.findall\<close>: the matches of a scan from left to right, each search starting where the
  previous match ended (\<open>lim\<close>). After an empty match the next search must advance: with
  these atoms a first match that is empty is the only match at its position, so the scan
  goes on one position further.
\<close>

fun scan :: "env \<Rightarrow> atom list \<Rightarrow> ustring \<Rightarrow> nat \<Rightarrow> nat list \<Rightarrow> (nat \<times> nat) list" where
  "scan E as t lim [] = []"
| "scan E as t lim (s # ss) =
     (if s < lim then scan E as t lim ss
      else case match_here E as t s of
             None \<Rightarrow> scan E as t lim ss
           | Some e \<Rightarrow> (s, e) # scan E as t (if e = s then Suc e else e) ss)"

definition findall :: "env \<Rightarrow> atom list \<Rightarrow> ustring \<Rightarrow> (nat \<times> nat) list" where
  "findall E as t = scan E as t 0 [0 ..< Suc (length t)]"

definition literal :: "ustring \<Rightarrow> atom list" where
  "literal p = map (\<lambda>c. Chr (\<lambda>d. d = c)) p"

definition slice :: "ustring \<Rightarrow> nat \<Rightarrow> nat \<Rightarrow> ustring" where
  "slice t a b = take (b - a) (drop a t)"

section \<open>TextMatcher: \<open>count_phrase_occurrences\<close> (lines 16-20)\<close>

text \<open>
  The class \<open>[\s\n\r.,!?;:\'\"\<dots>)]\<close> of line 19: a space character, or one of newline,
  carriage return, \<open>. , ! ? ; : ' "\<close>, the right double quotation mark U+201D (8221)
  and \<open>)\<close>.
\<close>

definition trailing_class :: "env \<Rightarrow> nat \<Rightarrow> bool" where
  "trailing_class E c = (isspace E c \<or> c \<in> set [10, 13, 46, 44, 33, 63, 59, 58, 39, 34, 8221, 41])"

definition count_pattern :: "env \<Rightarrow> ustring \<Rightarrow> atom list" where
  "count_pattern E phrase = [WordB] @ literal phrase @ [Star (trailing_class E), WordB]"

definition count_phrase_occurrences :: "env \<Rightarrow> ustring \<Rightarrow> ustring \<Rightarrow> nat" where
  "count_phrase_occurrences E text phrase =
     (let phrase = lower E phrase;
          pattern = count_pattern E phrase
      in length (findall E pattern (lower E text)))"

section \<open>ResultSink: \<open>init_db\<close> (lines 22-34) and \<open>save_to_db\<close> (lines 36-58)\<close>

text \<open>
  A row of \<open>articles\<close> without its \<open>id\<close>, which the engine assigns and the program never
  reads. The tuple put in the queue has the same five fields. A title is \<open>None\<close> when
  \<open>soup.title.string\<close> is.
\<close>

record row =
  row_url :: ustring
  row_title :: "ustring option"
  row_phrase :: ustring
  row_count :: nat
  row_date_published :: ustring

type_synonym articles = "row list"

text \<open>\<open>CREATE TABLE IF NOT EXISTS\<close>: an existing table is kept, a missing one is created empty.\<close>

definition init_db :: "articles option \<Rightarrow> articles" where
  "init_db db = (case db of None \<Rightarrow> [] | Some tbl \<Rightarrow> tbl)"

text \<open>\<open>INSERT OR IGNORE\<close> with \<open>url TEXT UNIQUE\<close>: a row whose url is in the table is skipped.\<close>

definition insert_or_ignore :: "articles \<Rightarrow> row \<Rightarrow> articles" where
  "insert_or_ignore tbl r = (if row_url r \<in> row_url ` set tbl then tbl else tbl @ [r])"

definition executemany :: "articles \<Rightarrow> row list \<Rightarrow> articles" where
  "executemany tbl buffer = foldl insert_or_ignore tbl buffer"

text \<open>
  The consumer loop over what \<open>queue.get()\<close> delivers (\<open>None\<close> is the end-of-stream
  sentinel). The result is the table, the buffer and whether the loop has returned; when
  the queue delivers nothing more and no sentinel came, the consumer waits in
  \<open>queue.get()\<close> with its buffer unwritten.
\<close>

fun save_loop :: "articles \<Rightarrow> row list \<Rightarrow> row option list \<Rightarrow> articles \<times> row list \<times> bool" where
  "save_loop db buffer [] = (db, buffer, False)"
| "save_loop db buffer (None # q) =
     (if buffer \<noteq> [] then (executemany db buffer, buffer, True) else (db, buffer, True))"
| "save_loop db buffer (Some data # q) =
     (let buffer = buffer @ [data]
      in if 10 \<le> length buffer then save_loop (executemany db buffer) [] q
         else save_loop db buffer q)"

definition save_to_db :: "articles \<Rightarrow> row option list \<Rightarrow> articles \<times> row list \<times> bool" where
  "save_to_db db queue = save_loop db [] queue"

section \<open>DateExtractor: \<open>extract_date\<close> (lines 101-110)\<close>

text \<open>\<open>soup.find("meta", {k: v})\<close>: the first \<open>meta\<close> element whose attribute \<open>k\<close> is \<open>v\<close>.\<close>

definition find_meta :: "soup \<Rightarrow> ustring \<Rightarrow> ustring \<Rightarrow> (ustring \<rightharpoonup> ustring) option" where
  "find_meta soup k v = List.find (\<lambda>m. m k = Some v) (meta_tags soup)"

text \<open>Lines 103-104: a found element is true in Python, so \<open>or\<close> takes the first one found.\<close>

definition meta_date :: "soup \<Rightarrow> (ustring \<rightharpoonup> ustring) option" where
  "meta_date soup =
     (case find_meta soup (ustr ''property'') (ustr ''article:published_time'') of
        Some m \<Rightarrow> Some m
      | None \<Rightarrow> find_meta soup (ustr ''name'') (ustr ''date''))"

definition digit :: "env \<Rightarrow> atom" where
  "digit E = Chr (\<lambda>c. decimal E c \<noteq> None)"

text \<open>\<open>(\d{4})/(\d{2})/(\d{2})\<close>; 47 is the slash.\<close>

definition date_pattern :: "env \<Rightarrow> atom list" where
  "date_pattern E =
     replicate 4 (digit E) @ [Chr (\<lambda>c. c = 47)] @ replicate 2 (digit E) @ [Chr (\<lambda>c. c = 47)]
       @ replicate 2 (digit E)"

text \<open>The string of line 110 (ten Cyrillic letters, the Russian word for "unknown").\<close>

definition unknown_date :: ustring where
  "unknown_date = [1053, 1077, 1080, 1079, 1074, 1077, 1089, 1090, 1085, 1086]"

text \<open>
  Line 106: the content that line 107 cuts, when \<open>meta_date\<close> is an element with a
  content that is not empty. Groups 1 to 3 of a match that starts at \<open>s\<close> are the characters at \<open>s..s+4\<close>,
  \<open>s+5..s+7\<close> and \<open>s+8..s+10\<close>; 45 is the hyphen.
\<close>

definition timestamp :: "soup \<Rightarrow> ustring option" where
  "timestamp soup =
     (case meta_date soup of
        None \<Rightarrow> None
      | Some m \<Rightarrow> (case m (ustr ''content'') of
                     None \<Rightarrow> None
                   | Some c \<Rightarrow> if c \<noteq> [] then Some c else None))"

definition extract_date :: "env \<Rightarrow> soup \<Rightarrow> ustring \<Rightarrow> ustring" where
  "extract_date E soup url =
     (case timestamp soup of
        Some c \<Rightarrow> take 10 c
      | None \<Rightarrow>
          (case re_search E (date_pattern E) url of
             Some (s, e) \<Rightarrow>
               slice url s (s + 4) @ [45] @ slice url (s + 5) (s + 7) @ [45] @ slice url (s + 8) (s + 10)
           | None \<Rightarrow> unknown_date))"

section \<open>The run: cache, events, exceptions\<close>

text \<open>
  What a run does besides returning values is recorded in order: taking and giving back
  a slot of \<open>semaphore\<close> (line 62), a request (\<open>session.get\<close>), a delay
  (\<open>asyncio.sleep\<close>), a call of a parser (lines 68 and 122), the count of the phrase in
  a page (lines 86-87) and \<open>queue.put\<close> (line 90). \<open>logging\<close> is left out, and with it
  \<open>last_month_seen\<close>, which only decides what is logged. One task is modelled at a time:
  other tasks only show in the replies of the network and in the cache a task starts from.
\<close>

datatype event = Acquire | Release | Get ustring | Sleep nat | Parse | Match | Put row

text \<open>Exceptions, all subclasses of \<open>Exception\<close>.\<close>

datatype exn = ClientError | ParseError | TypeError | ValueError

record world =
  cache :: "ustring \<rightharpoonup> link list"
  trace :: "event list"

definition semaphore :: nat where
  "semaphore = 50"

definition emit :: "world \<Rightarrow> event \<Rightarrow> world" where
  "emit W ev = W\<lparr>trace := trace W @ [ev]\<rparr>"

fun is_get :: "event \<Rightarrow> bool" where
  "is_get (Get u) = True"
| "is_get ev = False"

definition requests :: "world \<Rightarrow> nat" where
  "requests W = length (filter is_get (trace W))"

section \<open>SitemapResolver: \<open>get_sitemap_links\<close> (lines 112-135)\<close>

definition namespace :: ustring where
  "namespace = ustr ''{http://www.sitemaps.org/schemas/sitemap/0.9}''"

text \<open>
  \<open>tree.findall(namespace + parent + "/" + namespace + "loc")\<close>: the \<open>loc\<close> children of
  the \<open>parent\<close> children of the root, in document order.
\<close>

definition tree_findall :: "xml \<Rightarrow> ustring \<Rightarrow> xml list" where
  "tree_findall tree parent =
     concat (map (\<lambda>child. filter (\<lambda>elem. tag elem = namespace @ ustr ''loc'') (children child))
                 (filter (\<lambda>child. tag child = namespace @ parent) (children tree)))"

text \<open>Lines 124-125: an empty list is false, so \<open>or\<close> takes the leaf entries unless there are none.\<close>

definition links_of :: "xml \<Rightarrow> link list" where
  "links_of tree =
     map text_of (if tree_findall tree (ustr ''url'') \<noteq> [] then tree_findall tree (ustr ''url'')
                  else tree_findall tree (ustr ''sitemap''))"

text \<open>
  The body of \<open>try\<close> for one attempt (lines 119-130): an exception (\<open>Inl\<close>), a returned
  list (\<open>Some\<close>), or the end of the body (\<open>None\<close>).
\<close>

definition sitemap_try :: "env \<Rightarrow> world \<Rightarrow> ustring \<Rightarrow> nat \<Rightarrow> (exn + link list option) \<times> world" where
  "sitemap_try E W sitemap_url attempt =
     (let W1 = emit W (Get sitemap_url)
      in case session_get E (requests W) sitemap_url of
           Failure \<Rightarrow> (Inl ClientError, W1)
         | Response status text \<Rightarrow>
             if status = 200 then
               (let W2 = emit W1 Parse
                in case fromstring E text of
                     None \<Rightarrow> (Inl ParseError, W2)
                   | Some tree \<Rightarrow>
                       (let links = links_of tree
                        in (Inr (Some links), W2\<lparr>cache := (cache W2)(sitemap_url \<mapsto> links)\<rparr>)))
             else if status = 429 \<or> status = 500 then (Inr None, emit W1 (Sleep (2 ^ attempt)))
             else (Inr None, W1))"

text \<open>
  \<open>for attempt in range(3)\<close> with \<open>except Exception\<close> (lines 131-133), and line 135
  after the loop.
\<close>

fun sitemap_loop :: "env \<Rightarrow> ustring \<Rightarrow> nat list \<Rightarrow> world \<Rightarrow> (exn + link list) \<times> world" where
  "sitemap_loop E sitemap_url [] W = (Inr [], W)"
| "sitemap_loop E sitemap_url (attempt # rest) W =
     (case sitemap_try E W sitemap_url attempt of
        (Inr (Some links), W') \<Rightarrow> (Inr links, W')
      | (Inr None, W') \<Rightarrow> sitemap_loop E sitemap_url rest W'
      | (Inl e, W') \<Rightarrow> sitemap_loop E sitemap_url rest (emit W' (Sleep (2 ^ attempt))))"

definition get_sitemap_links :: "env \<Rightarrow> world \<Rightarrow> ustring \<Rightarrow> (exn + link list) \<times> world" where
  "get_sitemap_links E W sitemap_url =
     (case cache W sitemap_url of
        Some links \<Rightarrow> (Inr links, W)
      | None \<Rightarrow> sitemap_loop E sitemap_url [0, 1, 2] W)"

section \<open>PageFetcher: \<open>extract_text_from_url\<close> (lines 60-99)\<close>

text \<open>The string of line 76 (Russian for "no title").\<close>

definition no_title :: ustring where
  "no_title = [1041, 1077, 1079, 32, 1079, 1072, 1075, 1086, 1083, 1086, 1074, 1082, 1072]"

text \<open>\<open>"\n".join\<close>.\<close>

fun join_lines :: "ustring list \<Rightarrow> ustring" where
  "join_lines [] = []"
| "join_lines [x] = x"
| "join_lines (x # y # ys) = x @ [10] @ join_lines (y # ys)"

text \<open>Line 86: \<open>(?<!\w)\<close>, the escaped lowered phrase under \<open>re.IGNORECASE\<close>, \<open>(?!\w|$)\<close>.\<close>

definition phrase_pattern :: "env \<Rightarrow> ustring \<Rightarrow> atom list" where
  "phrase_pattern E phrase =
     [NotAfterWord] @ map (\<lambda>p. Chr (caseless_eq E p)) (lower E phrase) @ [NotBeforeWordOrEnd]"

text \<open>
  The body of \<open>try\<close> for one attempt (lines 65-95). A URL that is \<open>None\<close> (an empty
  \<open>loc\<close> element) makes \<open>session.get\<close> raise before any request.
\<close>

definition page_try :: "env \<Rightarrow> world \<Rightarrow> link \<Rightarrow> ustring \<Rightarrow> nat \<Rightarrow> (exn + link option) \<times> world" where
  "page_try E W article_url phrase attempt =
     (case article_url of
        None \<Rightarrow> (Inl TypeError, W)
      | Some u \<Rightarrow>
          (let W1 = emit W (Get u)
           in case session_get E (requests W) u of
                Failure \<Rightarrow> (Inl ClientError, W1)
              | Response status text \<Rightarrow>
                  if status = 200 then
                    (let W2 = emit W1 Parse
                     in case html_parser E text of
                          None \<Rightarrow> (Inl ParseError, W2)
                        | Some soup \<Rightarrow>
                            (let section_texts = map (lower E) (content_texts soup);
                                 article_text = join_lines section_texts;
                                 title = (case title_string soup of
                                            Some s \<Rightarrow> s | None \<Rightarrow> Some no_title);
                                 date_published = extract_date E soup u;
                                 W3 = emit W2 Match;
                                 occurrences =
                                   length (findall E (phrase_pattern E phrase) article_text)
                             in if 0 < occurrences then
                                  (Inr (Some (Some u)),
                                   emit W3 (Put \<lparr>row_url = u, row_title = title,
                                     row_phrase = phrase, row_count = occurrences,
                                     row_date_published = date_published\<rparr>))
                                else (Inr (Some None), W3)))
                  else if status = 429 \<or> status = 500 then
                    (Inr None, emit W1 (Sleep (2 ^ attempt)))
                  else (Inr None, W1)))"

fun page_loop :: "env \<Rightarrow> link \<Rightarrow> ustring \<Rightarrow> nat list \<Rightarrow> world \<Rightarrow> (exn + link) \<times> world" where
  "page_loop E article_url phrase [] W = (Inr None, W)"
| "page_loop E article_url phrase (attempt # rest) W =
     (case page_try E W article_url phrase attempt of
        (Inr (Some r), W') \<Rightarrow> (Inr r, W')
      | (Inr None, W') \<Rightarrow> page_loop E article_url phrase rest W'
      | (Inl e, W') \<Rightarrow> page_loop E article_url phrase rest (emit W' (Sleep (2 ^ attempt))))"

text \<open>\<open>async with semaphore\<close> around the loop: the slot is given back however the loop ends.\<close>

definition extract_text_from_url :: "env \<Rightarrow> world \<Rightarrow> link \<Rightarrow> ustring \<Rightarrow> (exn + link) \<times> world" where
  "extract_text_from_url E W article_url phrase =
     (case page_loop E article_url phrase [0, 1, 2] (emit W Acquire) of
        (r, W') \<Rightarrow> (r, emit W' Release))"

section \<open>SitemapResolver: \<open>find_articles_in_sitemap\<close> (lines 137-148)\<close>

definition year_pattern :: "env \<Rightarrow> atom list" where
  "year_pattern E = replicate 4 (digit E)"

text \<open>
  \<open>int\<close> of a string of decimal digits, which is all it is given here; \<open>None\<close> stands
  for \<open>ValueError\<close>.
\<close>

fun py_digits :: "env \<Rightarrow> int \<Rightarrow> ustring \<Rightarrow> int option" where
  "py_digits E acc [] = Some acc"
| "py_digits E acc (c # cs) =
     (case decimal E c of None \<Rightarrow> None | Some d \<Rightarrow> py_digits E (10 * acc + int d) cs)"

definition py_int :: "env \<Rightarrow> ustring \<Rightarrow> int option" where
  "py_int E s = (if s = [] then None else py_digits E 0 s)"

text \<open>Line 143 for one link: \<open>None\<close> when \<open>re.search\<close> finds nothing, else \<open>int(match.group(1))\<close>.\<close>

definition year_of :: "env \<Rightarrow> ustring \<Rightarrow> exn + int option" where
  "year_of E link =
     (case re_search E (year_pattern E) link of
        None \<Rightarrow> Inr None
      | Some (s, e) \<Rightarrow>
          (case py_int E (slice link s e) of None \<Rightarrow> Inl ValueError | Some y \<Rightarrow> Inr (Some y)))"

text \<open>Lines 142-143; \<open>re.search\<close> raises \<open>TypeError\<close> on a link that is \<open>None\<close>.\<close>

fun filtered_links :: "env \<Rightarrow> int \<Rightarrow> int \<Rightarrow> link list \<Rightarrow> exn + ustring list" where
  "filtered_links E year_from year_to [] = Inr []"
| "filtered_links E year_from year_to (None # sitemap_links) = Inl TypeError"
| "filtered_links E year_from year_to (Some link # sitemap_links) =
     (case year_of E link of
        Inl e \<Rightarrow> Inl e
      | Inr y \<Rightarrow>
          (case filtered_links E year_from year_to sitemap_links of
             Inl e \<Rightarrow> Inl e
           | Inr rest \<Rightarrow>
               Inr (if (case y of None \<Rightarrow> False | Some y \<Rightarrow> year_from \<le> y \<and> y \<le> year_to)
                    then link # rest else rest)))"

text \<open>Lines 145-148.\<close>

fun all_article_urls :: "env \<Rightarrow> link list \<Rightarrow> ustring list \<Rightarrow> world \<Rightarrow> (exn + link list) \<times> world" where
  "all_article_urls E acc [] W = (Inr acc, W)"
| "all_article_urls E acc (sitemap # rest) W =
     (case get_sitemap_links E W sitemap of
        (Inl e, W') \<Rightarrow> (Inl e, W')
      | (Inr links, W') \<Rightarrow> all_article_urls E (acc @ links) rest W')"

text \<open>
  Lines 139-148 of \<open>find_articles_in_sitemap\<close>: the URLs for which it then starts one
  \<open>extract_text_from_url\<close> task each (lines 150-152, tasks that run concurrently and are
  modelled one by one above).
\<close>

definition find_articles_in_sitemap ::
  "env \<Rightarrow> world \<Rightarrow> ustring \<Rightarrow> int \<Rightarrow> int \<Rightarrow> (exn + link list) \<times> world" where
  "find_articles_in_sitemap E W start_sitemap year_from year_to =
     (case get_sitemap_links E W start_sitemap of
        (Inl e, W') \<Rightarrow> (Inl e, W')
      | (Inr sitemap_links, W') \<Rightarrow>
          (case filtered_links E year_from year_to sitemap_links of
             Inl e \<Rightarrow> (Inl e, W')
           | Inr links \<Rightarrow> all_article_urls E [] links W'))"

section \<open>Word-bounded occurrences, as the specification words them\<close>

text \<open>The phrase \<open>p\<close> is the substring of \<open>t\<close> that starts at position \<open>s\<close>.\<close>

definition occurs_at :: "ustring \<Rightarrow> ustring \<Rightarrow> nat \<Rightarrow> bool" where
  "occurs_at t p s = (s + length p \<le> length t \<and> slice t s (s + length p) = p)"

text \<open>
  \<dots> and it is bounded on both sides by a non-word character, the start or the end of
  the string.
\<close>

definition bounded_at :: "env \<Rightarrow> ustring \<Rightarrow> ustring \<Rightarrow> nat \<Rightarrow> bool" where
  "bounded_at E t p s =
     (occurs_at t p s
      \<and> (s = 0 \<or> \<not> wordchar E (t ! (s - 1)))
      \<and> (s + length p = length t \<or> \<not> wordchar E (t ! (s + length p))))"

text \<open>The number of all word-bounded occurrences.\<close>

definition bounded_count :: "env \<Rightarrow> ustring \<Rightarrow> ustring \<Rightarrow> nat" where
  "bounded_count E t p = length (filter (bounded_at E t p) [0 ..< Suc (length t)])"

text \<open>
  The word-bounded occurrences a scan from left to right counts when an occurrence that
  starts inside the one counted before it is passed over.
\<close>

fun bounded_scan :: "env \<Rightarrow> ustring \<Rightarrow> ustring \<Rightarrow> nat \<Rightarrow> nat list \<Rightarrow> nat list" where
  "bounded_scan E t p lim [] = []"
| "bounded_scan E t p lim (s # ss) =
     (if lim \<le> s \<and> bounded_at E t p s then s # bounded_scan E t p (s + length p) ss
      else bounded_scan E t p lim ss)"

definition disjoint_count :: "env \<Rightarrow> ustring \<Rightarrow> ustring \<Rightarrow> nat" where
  "disjoint_count E t p = length (bounded_scan E t p 0 [0 ..< Suc (length t)])"

text \<open>
  A fact of Python's tables: no space character and none of the punctuation characters of
  line 19 is a word character.
\<close>

definition separators_not_words :: "env \<Rightarrow> bool" where
  "separators_not_words E = (\<forall>c. trailing_class E c \<longrightarrow> \<not> wordchar E c)"

section \<open>Dates and years in a URL, as the specification words them\<close>

definition is_digit :: "env \<Rightarrow> nat \<Rightarrow> bool" where
  "is_digit E c = (decimal E c \<noteq> None)"

text \<open>Four digits, a slash, two digits, a slash and two digits stand at position \<open>i\<close>.\<close>

definition ymd_at :: "env \<Rightarrow> ustring \<Rightarrow> nat \<Rightarrow> bool" where
  "ymd_at E url i =
     (i + 10 \<le> length url
      \<and> (\<forall>k \<in> set [0, 1, 2, 3, 5, 6, 8, 9]. is_digit E (url ! (i + k)))
      \<and> url ! (i + 4) = 47 \<and> url ! (i + 7) = 47)"

text \<open>Four digits stand at position \<open>i\<close>.\<close>

definition year_at :: "env \<Rightarrow> ustring \<Rightarrow> nat \<Rightarrow> bool" where
  "year_at E link i = (i + 4 \<le> length link \<and> (\<forall>k \<in> set [0, 1, 2, 3]. is_digit E (link ! (i + k))))"

text \<open>The number a string of digits denotes.\<close>

definition digits_value :: "env \<Rightarrow> ustring \<Rightarrow> int" where
  "digits_value E cs = foldl (\<lambda>acc c. 10 * acc + (case decimal E c of Some d \<Rightarrow> int d | None \<Rightarrow> 0)) 0 cs"

text \<open>The first four digits in a row of the link denote a year of the range.\<close>

definition first_year_in :: "env \<Rightarrow> int \<Rightarrow> int \<Rightarrow> ustring \<Rightarrow> bool" where
  "first_year_in E year_from year_to link =
     (\<exists>i. year_at E link i \<and> (\<forall>j < i. \<not> year_at E link j)
          \<and> year_from \<le> digits_value E (slice link i (i + 4))
          \<and> digits_value E (slice link i (i + 4)) \<le> year_to)"

text \<open>Some four digits in a row of the link denote a year of the range.\<close>

definition some_year_in :: "env \<Rightarrow> int \<Rightarrow> int \<Rightarrow> ustring \<Rightarrow> bool" where
  "some_year_in E year_from year_to link =
     (\<exists>i. year_at E link i
          \<and> year_from \<le> digits_value E (slice link i (i + 4))
          \<and> digits_value E (slice link i (i + 4)) \<le> year_to)"

text \<open>The URLs of the requests in a trace, in order.\<close>

fun requested :: "event list \<Rightarrow> ustring list" where
  "requested [] = []"
| "requested (Get u # evs) = u # requested evs"
| "requested (ev # evs) = requested evs"

section \<open>A concrete environment: Python's tables on ASCII\<close>

text \<open>
  The tables of Python restricted to ASCII (every other code point is taken as neither
  alphanumeric, nor space, nor digit, nor cased), for evaluating the program on ASCII
  inputs. The parsers and the network are arguments.
\<close>

definition ascii_isalnum :: "nat \<Rightarrow> bool" where
  "ascii_isalnum c = ((48 \<le> c \<and> c \<le> 57) \<or> (65 \<le> c \<and> c \<le> 90) \<or> (97 \<le> c \<and> c \<le> 122))"

definition ascii_isspace :: "nat \<Rightarrow> bool" where
  "ascii_isspace c = ((9 \<le> c \<and> c \<le> 13) \<or> (28 \<le> c \<and> c \<le> 32))"

definition ascii_decimal :: "nat \<Rightarrow> nat option" where
  "ascii_decimal c = (if 48 \<le> c \<and> c \<le> 57 then Some (c - 48) else None)"

definition ascii_lower_char :: "nat \<Rightarrow> nat" where
  "ascii_lower_char c = (if 65 \<le> c \<and> c \<le> 90 then c + 32 else c)"

definition ascii_env ::
  "(ustring \<Rightarrow> soup option) \<Rightarrow> (ustring \<Rightarrow> xml option) \<Rightarrow> (nat \<Rightarrow> ustring \<Rightarrow> reply) \<Rightarrow> env" where
  "ascii_env html xmlp net =
     \<lparr>isalnum = ascii_isalnum, isspace = ascii_isspace, decimal = ascii_decimal,
      lower = map ascii_lower_char,
      caseless_eq = (\<lambda>p c. ascii_lower_char p = ascii_lower_char c),
      html_parser = html, fromstring = xmlp, session_get = net\<rparr>"

text \<open>An environment with no parser and no network, for the pure functions.\<close>

definition pure_env :: env where
  "pure_env = ascii_env (\<lambda>_. None) (\<lambda>_. None) (\<lambda>_ _. Failure)"

text \<open>A record a page fetch may produce, for the examples.\<close>

definition example_row :: row where
  "example_row = \<lparr>row_url = ustr ''https://www.thesun.co.uk/news/1/story/'', row_title = Some (ustr ''Story''),
     row_phrase = ustr ''dishy rishi'', row_count = 2, row_date_published = ustr ''2025-03-14''\<rparr>"

definition example_soup :: soup where
  "example_soup = \<lparr>content_texts = [ustr ''Dishy Rishi is back.''], title_string = Some (Some (ustr ''Story'')),
      meta_tags = [[ustr ''name'' \<mapsto> ustr ''viewport''],
                   [ustr ''property'' \<mapsto> ustr ''article:published_time'', ustr ''content'' \<mapsto> ustr ''2025-03-14T09:30:00+00:00'']]\<rparr>"

definition bare_soup :: soup where
  "bare_soup = \<lparr>content_texts = [], title_string = None, meta_tags = []\<rparr>"

text \<open>Sitemaps, pages and networks for the examples.\<close>

definition root_url :: ustring where
  "root_url = ustr ''https://www.thesun.co.uk/sitemap.xml''"

definition loc :: "ustring \<Rightarrow> ustring \<Rightarrow> xml" where
  "loc parent u = Element (namespace @ parent) None [Element (namespace @ ustr ''loc'') (Some u) []]"

definition index_tree :: xml where
  "index_tree = Element (namespace @ ustr ''sitemapindex'') None
     [loc (ustr ''sitemap'') (ustr ''https://www.thesun.co.uk/2024-sitemap.xml''),
      loc (ustr ''sitemap'') (ustr ''https://www.thesun.co.uk/2025-sitemap.xml''),
      loc (ustr ''sitemap'') (ustr ''https://www.thesun.co.uk/about-sitemap.xml'')]"

definition leaf_tree :: xml where
  "leaf_tree = Element (namespace @ ustr ''urlset'') None
     [loc (ustr ''url'') (ustr ''https://www.thesun.co.uk/news/1/story/'')]"

definition mixed_tree :: xml where
  "mixed_tree = Element (namespace @ ustr ''urlset'') None
     [loc (ustr ''sitemap'') (ustr ''https://www.thesun.co.uk/2025-sitemap.xml''),
      loc (ustr ''url'') (ustr ''https://www.thesun.co.uk/news/1/story/'')]"

definition empty_tree :: xml where
  "empty_tree = Element (namespace @ ustr ''urlset'') None []"

text \<open>An index whose one entry has two runs of four digits.\<close>

definition archive_2025 :: ustring where
  "archive_2025 = ustr ''https://www.thesun.co.uk/archive-1999/2025-sitemap.xml''"

definition archive_tree :: xml where
  "archive_tree = Element (namespace @ ustr ''sitemapindex'') None [loc (ustr ''sitemap'') archive_2025]"

definition example_fromstring :: "ustring \<Rightarrow> xml option" where
  "example_fromstring body =
     (if body = ustr ''index'' then Some index_tree
      else if body = ustr ''leaf'' then Some leaf_tree
      else if body = ustr ''mixed'' then Some mixed_tree
      else if body = ustr ''empty'' then Some empty_tree
      else if body = ustr ''archive'' then Some archive_tree
      else None)"

text \<open>A page whose content ends with the word \<open>Rishi\<close>.\<close>

definition rishi_soup :: soup where
  "rishi_soup = \<lparr>content_texts = [ustr ''Dishy Rishi''], title_string = Some (Some (ustr ''Story'')),
      meta_tags = []\<rparr>"

definition example_html :: "ustring \<Rightarrow> soup option" where
  "example_html body =
     (if body = ustr ''page'' then Some example_soup
      else if body = ustr ''rishi page'' then Some rishi_soup
      else None)"

definition example_env :: "(nat \<Rightarrow> ustring \<Rightarrow> reply) \<Rightarrow> env" where
  "example_env net = ascii_env example_html example_fromstring net"

definition world0 :: world where
  "world0 = \<lparr>cache = Map.empty, trace = []\<rparr>"

definition site :: "nat \<Rightarrow> ustring \<Rightarrow> reply" where
  "site n u = (if u = root_url then Response 200 (ustr ''index'')
               else if u = ustr ''https://www.thesun.co.uk/news/1/story/'' then Response 200 (ustr ''page'')
               else Response 200 (ustr ''leaf''))"

definition archive_site :: "nat \<Rightarrow> ustring \<Rightarrow> reply" where
  "archive_site n u = (if u = root_url then Response 200 (ustr ''archive'') else Response 200 (ustr ''leaf''))"

text \<open>A reply other than status 200.\<close>

definition not_ok :: "reply \<Rightarrow> bool" where
  "not_ok r = (case r of Failure \<Rightarrow> True | Response status body \<Rightarrow> status \<noteq> 200)"

text \<open>A reply after which the protocol delays: a transport failure, status 429 or status 500.\<close>

definition backs_off :: "reply \<Rightarrow> bool" where
  "backs_off r = (case r of Failure \<Rightarrow> True | Response status body \<Rightarrow> status = 429 \<or> status = 500)"

text \<open>What attempt number \<open>k\<close> for \<open>u\<close> does when its reply \<open>r\<close> is not status 200.\<close>

definition attempt_events :: "ustring \<Rightarrow> nat \<Rightarrow> reply \<Rightarrow> event list" where
  "attempt_events u k r = Get u # (if backs_off r then [Sleep (2 ^ k)] else [])"

text \<open>The events that happen while the slot of the semaphore is held.\<close>

fun while_held :: "bool \<Rightarrow> event list \<Rightarrow> event list" where
  "while_held h [] = []"
| "while_held h (Acquire # evs) = while_held True evs"
| "while_held h (Release # evs) = while_held False evs"
| "while_held h (ev # evs) = (if h then ev # while_held h evs else while_held h evs)"

text \<open>
  A reply from which an attempt of the resolver returns no links: a transport failure, a
  status other than 200, or a body that \<open>ET.fromstring\<close> refuses.
\<close>

definition fails :: "env \<Rightarrow> reply \<Rightarrow> bool" where
  "fails E r = (case r of Failure \<Rightarrow> True | Response status body \<Rightarrow> status \<noteq> 200 \<or> fromstring E body = None)"

text \<open>Networks for the examples: one status 500 and then a body; a failure of every kind.\<close>

definition flaky :: "ustring \<Rightarrow> nat \<Rightarrow> ustring \<Rightarrow> reply" where
  "flaky body n u = (if n = 0 then Response 500 [] else Response 200 body)"

definition unlucky :: "nat \<Rightarrow> ustring \<Rightarrow> reply" where
  "unlucky n u = (if n = 0 then Response 500 [] else if n = 1 then Failure else Response 404 [])"

definition sitemap_2025 :: ustring where
  "sitemap_2025 = ustr ''https://www.thesun.co.uk/2025-sitemap.xml''"

definition story :: ustring where
  "story = ustr ''https://www.thesun.co.uk/news/1/story/''"

text \<open>
  More networks for the examples: every body is one no parser accepts; the first body is
  such a one; every reply is status 404.
\<close>

definition garbled :: "nat \<Rightarrow> ustring \<Rightarrow> reply" where
  "garbled n u = Response 200 (ustr ''<<'')"

definition garbled_once :: "nat \<Rightarrow> ustring \<Rightarrow> reply" where
  "garbled_once n u = (if n = 0 then Response 200 (ustr ''<<'') else Response 200 (ustr ''leaf''))"

definition not_found :: "nat \<Rightarrow> ustring \<Rightarrow> reply" where
  "not_found n u = Response 404 []"

(*DEFS_END*)

section \<open>ResultSink: one row per URL\<close>

lemma insert_or_ignore_distinct:
  "distinct (map row_url tbl) \<Longrightarrow> distinct (map row_url (insert_or_ignore tbl r))"
  by (auto simp: insert_or_ignore_def)

lemma executemany_distinct:
  "distinct (map row_url tbl) \<Longrightarrow> distinct (map row_url (executemany tbl buffer))"
  unfolding executemany_def
  by (induction buffer arbitrary: tbl) (simp_all add: insert_or_ignore_distinct)

lemma executemany_urls:
  "row_url ` set (executemany tbl buffer) = row_url ` set tbl \<union> row_url ` set buffer"
  unfolding executemany_def
  by (induction buffer arbitrary: tbl) (auto simp: insert_or_ignore_def)

lemma executemany_extends: "\<exists>new. executemany tbl buffer = tbl @ new"
  unfolding executemany_def
proof (induction buffer arbitrary: tbl)
  case Nil
  show ?case by simp
next
  case (Cons r buffer)
  obtain new where new: "foldl insert_or_ignore (insert_or_ignore tbl r) buffer = insert_or_ignore tbl r @ new"
    using Cons.IH by blast
  have "\<exists>n0. insert_or_ignore tbl r = tbl @ n0"
    by (simp add: insert_or_ignore_def)
  then obtain n0 where "insert_or_ignore tbl r = tbl @ n0" ..
  with new have "foldl insert_or_ignore (insert_or_ignore tbl r) buffer = tbl @ (n0 @ new)"
    by simp
  then show ?case by (simp del: append_assoc)
qed

lemma executemany_append:
  "executemany (executemany tbl b1) b2 = executemany tbl (b1 @ b2)"
  by (simp add: executemany_def)

lemma save_loop_distinct:
  "distinct (map row_url db) \<Longrightarrow> distinct (map row_url (fst (save_loop db buffer queue)))"
  by (induction db buffer queue rule: save_loop.induct) (simp_all add: executemany_distinct Let_def)

lemma save_loop_extends: "\<exists>new. fst (save_loop db buffer queue) = db @ new"
proof (induction db buffer queue rule: save_loop.induct)
  case (1 db buffer)
  show ?case by simp
next
  case (2 db buffer q)
  show ?case using executemany_extends [of db buffer] by auto
next
  case (3 db buffer data q)
  show ?case
  proof (cases "10 \<le> length (buffer @ [data])")
    case True
    obtain n1 where n1: "executemany db (buffer @ [data]) = db @ n1"
      using executemany_extends by blast
    obtain n2 where "fst (save_loop (executemany db (buffer @ [data])) [] q) = executemany db (buffer @ [data]) @ n2"
      using 3(1) [OF refl True] by blast
    with n1 True show ?thesis by (simp add: Let_def)
  next
    case False
    with 3(2) [OF refl False] show ?thesis by (simp add: Let_def)
  qed
qed

lemma save_loop_flush:
  "fst (save_loop db buffer (map Some rs @ None # rest)) = executemany db (buffer @ rs)"
proof (induction rs arbitrary: db buffer)
  case Nil
  show ?case by (simp add: executemany_def)
next
  case (Cons r rs)
  show ?case by (simp add: Let_def Cons.IH executemany_append)
qed

lemma distinct_map_count:
  "distinct (map f xs) \<Longrightarrow> u \<in> f ` set xs \<Longrightarrow> length (filter (\<lambda>y. f y = u) xs) = 1"
proof (induction xs)
  case Nil
  then show ?case by simp
next
  case (Cons x xs)
  show ?case
  proof (cases "f x = u")
    case True
    with Cons.prems(1) have "filter (\<lambda>y. f y = u) xs = []"
      by (force simp: filter_empty_conv image_iff)
    with True show ?thesis by simp
  next
    case False
    with Cons show ?thesis by auto
  qed
qed

text \<open>
  C3. Whatever the queue delivers, the table never holds two rows with one URL, and the
  rows it held stay as they were (a record whose URL is stored is dropped, nothing
  fails); once the sentinel has come, every submitted record's URL has exactly one row,
  however often the record was submitted.
\<close>

theorem sink_one_row_per_url:
  assumes "distinct (map row_url db)"
  shows "distinct (map row_url (fst (save_to_db db queue)))
       \<and> (\<exists>new. fst (save_to_db db queue) = db @ new)
       \<and> (\<forall>r \<in> set rs. length (filter (\<lambda>x. row_url x = row_url r)
              (fst (save_to_db db (map Some rs @ None # rest)))) = 1)"
proof (intro conjI ballI)
  show "distinct (map row_url (fst (save_to_db db queue)))"
    unfolding save_to_db_def using assms by (rule save_loop_distinct)
  show "\<exists>new. fst (save_to_db db queue) = db @ new"
    unfolding save_to_db_def by (rule save_loop_extends)
next
  fix r assume r: "r \<in> set rs"
  have flush: "fst (save_to_db db (map Some rs @ None # rest)) = executemany db rs"
    by (simp add: save_to_db_def save_loop_flush)
  have "distinct (map row_url (executemany db rs))"
    using assms by (rule executemany_distinct)
  moreover have "row_url r \<in> row_url ` set (executemany db rs)"
    using r by (simp add: executemany_urls)
  ultimately show "length (filter (\<lambda>x. row_url x = row_url r)
      (fst (save_to_db db (map Some rs @ None # rest)))) = 1"
    unfolding flush by (rule distinct_map_count)
qed

theorem sink_one_row_per_url_witness:
  "distinct (map row_url ([] :: articles))
   \<and> fst (save_to_db [] [Some example_row, Some example_row, None]) = [example_row]
   \<and> length (filter (\<lambda>x. row_url x = row_url example_row)
        (fst (save_to_db [] (map Some [example_row, example_row] @ None # [])))) = 1"
  using sink_one_row_per_url [of "[]" "[]" "[example_row, example_row]" "[]"]
  by (simp add: save_to_db_def executemany_def insert_or_ignore_def Let_def)

section \<open>TextMatcher: the empty phrase and the empty text\<close>

lemma first_match_None: "(\<And>e. e \<in> set es \<Longrightarrow> f e = None) \<Longrightarrow> first_match f es = None"
  by (induction es) auto

lemma scan_None: "(\<And>s. s \<in> set ss \<Longrightarrow> match_here E as t s = None) \<Longrightarrow> scan E as t lim ss = []"
  by (induction ss arbitrary: lim) auto

lemma scan_nonempty:
  "s \<in> set ss \<Longrightarrow> lim \<le> s \<Longrightarrow> match_here E as t s \<noteq> None \<Longrightarrow> scan E as t lim ss \<noteq> []"
proof (induction ss arbitrary: lim)
  case Nil
  then show ?case by simp
next
  case (Cons s0 ss)
  show ?case
  proof (cases "s0 < lim")
    case True
    with Cons.prems have "s \<in> set ss" by auto
    with Cons.IH [OF _ Cons.prems(2,3)] True show ?thesis by simp
  next
    case False
    show ?thesis
    proof (cases "match_here E as t s0")
      case None
      with Cons.prems have "s \<in> set ss" by auto
      with Cons.IH [OF _ Cons.prems(2,3)] None False show ?thesis by simp
    next
      case (Some e)
      with False show ?thesis by simp
    qed
  qed
qed

lemma no_boundary: "\<forall>c \<in> set t. \<not> wordchar E c \<Longrightarrow> \<not> word_boundary E t i"
  by (auto simp: word_boundary_def)

lemma count_pattern_None:
  "\<not> word_boundary E t i \<Longrightarrow> match_here E (count_pattern E p) t i = None"
  by (simp add: count_pattern_def)

lemma first_match_last:
  "f e \<noteq> None \<Longrightarrow> first_match f (es @ [e]) \<noteq> None"
  by (induction es) (auto split: option.splits)

lemma empty_pattern_Some:
  assumes "word_boundary E t i"
  shows "match_here E (count_pattern E []) t i \<noteq> None"
proof -
  let ?k = "length (takeWhile (trailing_class E) (drop i t))"
  have "[i ..< Suc (i + ?k)] = i # [Suc i ..< Suc (i + ?k)]"
    by (rule upt_conv_Cons) simp
  then have "rev [i ..< Suc (i + ?k)] = rev [Suc i ..< Suc (i + ?k)] @ [i]"
    by (simp del: upt_Suc)
  moreover have "match_here E [WordB] t i \<noteq> None" using assms by simp
  ultimately have "first_match (match_here E [WordB] t) (rev [i ..< Suc (i + ?k)]) \<noteq> None"
    using first_match_last [of "match_here E [WordB] t" i] by (simp del: upt_Suc)
  with assms show ?thesis by (simp add: count_pattern_def literal_def)
qed

lemma first_wordchar_boundary:
  assumes "c \<in> set t" "wordchar E c"
  shows "\<exists>i \<le> length t. word_boundary E t i"
proof -
  have "\<exists>i < length t. wordchar E (t ! i)" using assms by (metis in_set_conv_nth)
  then obtain i where i: "i < length t" "wordchar E (t ! i)" "\<forall>j < i. \<not> wordchar E (t ! j)"
    using exists_least_iff [of "\<lambda>i. i < length t \<and> wordchar E (t ! i)"] by (metis order_less_trans)
  then have "word_boundary E t i" by (auto simp: word_boundary_def)
  with i(1) show ?thesis by (metis less_imp_le)
qed

text \<open>
  C10 (as amended). \<open>count_phrase_occurrences\<close> is a total function (it never raises). On
  the empty text it returns 0 for every phrase. For the empty phrase it returns 0 exactly
  when the lowered text has no word character; \<open>lower E [] = []\<close> says that the lower
  case of the empty string is the empty string.
\<close>

theorem count_empty:
  assumes "lower E [] = []"
  shows "count_phrase_occurrences E [] phrase = 0
       \<and> (count_phrase_occurrences E text [] = 0 \<longleftrightarrow> (\<forall>c \<in> set (lower E text). \<not> wordchar E c))"
proof
  have "scan E (count_pattern E (lower E phrase)) [] 0 [0 ..< Suc 0] = []"
    by (rule scan_None) (simp add: count_pattern_None no_boundary)
  then show "count_phrase_occurrences E [] phrase = 0"
    using assms by (simp add: count_phrase_occurrences_def findall_def)
next
  let ?t = "lower E text"
  show "count_phrase_occurrences E text [] = 0 \<longleftrightarrow> (\<forall>c \<in> set ?t. \<not> wordchar E c)"
  proof
    assume zero: "count_phrase_occurrences E text [] = 0"
    show "\<forall>c \<in> set ?t. \<not> wordchar E c"
    proof (rule ccontr)
      assume "\<not> (\<forall>c \<in> set ?t. \<not> wordchar E c)"
      then obtain i where i: "i \<le> length ?t" "word_boundary E ?t i"
        using first_wordchar_boundary by blast
      have "i \<in> set [0 ..< Suc (length ?t)]" using i(1) by auto
      then have "scan E (count_pattern E []) ?t 0 [0 ..< Suc (length ?t)] \<noteq> []"
        by (rule scan_nonempty) (use i in \<open>simp_all add: empty_pattern_Some\<close>)
      with zero assms show False
        by (simp add: count_phrase_occurrences_def findall_def)
    qed
  next
    assume "\<forall>c \<in> set ?t. \<not> wordchar E c"
    then have "scan E (count_pattern E []) ?t 0 [0 ..< Suc (length ?t)] = []"
      by (intro scan_None count_pattern_None no_boundary)
    then show "count_phrase_occurrences E text [] = 0"
      using assms by (simp add: count_phrase_occurrences_def findall_def)
  qed
qed

lemmas pure_simps = count_phrase_occurrences_def pure_env_def ascii_env_def ustr_def findall_def count_pattern_def
   literal_def word_boundary_def wordchar_def ascii_isalnum_def ascii_isspace_def ascii_lower_char_def trailing_class_def upt_rec

theorem count_empty_witness:
  "lower pure_env [] = []
   \<and> count_phrase_occurrences pure_env [] (ustr ''rishi'') = 0
   \<and> count_phrase_occurrences pure_env (ustr ''?! '') [] = 0
   \<and> set (lower pure_env (ustr ''?! '')) = {63, 33, 32}
   \<and> \<not> wordchar pure_env 63 \<and> \<not> wordchar pure_env 33 \<and> \<not> wordchar pure_env 32"
  using count_empty [of pure_env "ustr ''rishi''" "ustr ''?! ''"]
  by (simp add: pure_env_def ascii_env_def ustr_def wordchar_def ascii_isalnum_def ascii_lower_char_def)

text \<open>
  The claim as stated fails: for the empty phrase the pattern is \<open>\b[...]*\b\<close>, which
  matches the empty string at both ends of the text \<open>a\<close>.
\<close>

theorem count_empty_phrase_counterexample:
  "count_phrase_occurrences pure_env (ustr ''a'') [] = 2"
  by (simp add: pure_simps)

section \<open>TextMatcher: what the pattern of line 19 counts\<close>

lemma occurs_at_Nil: "occurs_at t [] s \<longleftrightarrow> s \<le> length t"
  by (simp add: occurs_at_def slice_def)

lemma occurs_at_Cons:
  "occurs_at t (c # p) s \<longleftrightarrow> s < length t \<and> t ! s = c \<and> occurs_at t p (Suc s)"
proof (cases "s < length t")
  case True
  then have "drop s t = t ! s # drop (Suc s) t" by (simp add: Cons_nth_drop_Suc)
  with True show ?thesis by (auto simp: occurs_at_def slice_def)
next
  case False
  then show ?thesis by (simp add: occurs_at_def)
qed

lemma occurs_at_nth: "occurs_at t p s \<Longrightarrow> k < length p \<Longrightarrow> t ! (s + k) = p ! k"
proof (induction p arbitrary: s k)
  case Nil
  then show ?case by simp
next
  case (Cons c p)
  show ?case
  proof (cases k)
    case 0
    with Cons.prems show ?thesis by (simp add: occurs_at_Cons)
  next
    case (Suc n)
    with Cons.prems have "occurs_at t p (Suc s)" "n < length p" by (simp_all add: occurs_at_Cons)
    then have "t ! (Suc s + n) = p ! n" by (rule Cons.IH)
    with Suc show ?thesis by simp
  qed
qed

lemma match_literal:
  "i \<le> length t \<Longrightarrow> match_here E (literal p @ rest) t i =
     (if occurs_at t p i then match_here E rest t (i + length p) else None)"
proof (induction p arbitrary: i)
  case Nil
  then show ?case by (simp add: literal_def occurs_at_Nil)
next
  case (Cons c p)
  have lit: "literal (c # p) = Chr (\<lambda>d. d = c) # literal p" by (simp add: literal_def)
  show ?case
  proof (cases "i < length t \<and> t ! i = c")
    case True
    then have "Suc i \<le> length t" by simp
    from Cons.IH [OF this] True show ?thesis by (simp add: lit occurs_at_Cons)
  next
    case False
    then show ?thesis by (auto simp: lit occurs_at_Cons)
  qed
qed

lemma first_match_append:
  "first_match f (xs @ ys) = (case first_match f xs of Some r \<Rightarrow> Some r | None \<Rightarrow> first_match f ys)"
  by (induction xs) (auto split: option.splits)

lemma first_match_Some:
  "first_match f es = Some r \<Longrightarrow> \<exists>e \<in> set es. f e = Some r"
  by (induction es) (auto split: option.splits)

lemma first_match_None_iff: "first_match f es = None \<longleftrightarrow> (\<forall>e \<in> set es. f e = None)"
  by (induction es) (auto split: option.splits)

text \<open>The characters a starred class takes are of the class.\<close>

lemma takeWhile_run:
  assumes "i \<le> e" "e < i + length (takeWhile P (drop i t))"
  shows "e < length t \<and> P (t ! e)"
proof -
  let ?w = "takeWhile P (drop i t)"
  have k: "e - i < length ?w" using assms by arith
  have le: "length ?w \<le> length (drop i t)" by (rule length_takeWhile_le)
  have "?w ! (e - i) = drop i t ! (e - i)" using k by (rule takeWhile_nth)
  moreover have "P (?w ! (e - i))" using k by (metis nth_mem set_takeWhileD)
  moreover have "e < length t" using k le assms(1) by simp
  ultimately show ?thesis using assms(1) by simp
qed

lemma takeWhile_stop:
  assumes "i < length t" "\<not> P (t ! i)"
  shows "takeWhile P (drop i t) = []"
proof -
  have "drop i t = t ! i # drop (Suc i) t" using assms(1) by (simp add: Cons_nth_drop_Suc)
  with assms(2) show ?thesis by simp
qed

text \<open>What the pattern of line 19 matches at a position, for a phrase that starts and ends with a word character.\<close>

lemma count_pattern_match:
  assumes sep: "separators_not_words E"
    and p: "p \<noteq> []" "wordchar E (hd p)" "wordchar E (last p)"
    and s: "s \<le> length t"
  shows "(match_here E (count_pattern E p) t s = None \<longleftrightarrow> \<not> bounded_at E t p s)"
    and "match_here E (count_pattern E p) t s = Some e \<Longrightarrow>
           s < e \<and> s + length p \<le> e \<and> (\<forall>s'. s + length p \<le> s' \<and> s' < e \<longrightarrow> \<not> bounded_at E t p s')"
proof -
  let ?j = "s + length p"
  let ?k = "length (takeWhile (trailing_class E) (drop ?j t))"
  let ?f = "match_here E [WordB] t"
  have f: "\<And>e. ?f e = (if word_boundary E t e then Some e else None)" by simp
  have pat: "match_here E (count_pattern E p) t s =
      (if word_boundary E t s \<and> occurs_at t p s
       then first_match ?f (rev [?j ..< Suc (?j + ?k)]) else None)"
    using s by (simp add: count_pattern_def match_literal)
  have len: "0 < length p" using p(1) by simp
  have hd_t: "t ! s = hd p" if "occurs_at t p s" for s
    using occurs_at_nth [OF that len] p(1) by (simp add: hd_conv_nth)
  have last_t: "t ! (s + length p - 1) = last p" if "occurs_at t p s"
    using occurs_at_nth [OF that, of "length p - 1"] len p(1) by (simp add: last_conv_nth)
  have left: "word_boundary E t s \<longleftrightarrow> (s = 0 \<or> \<not> wordchar E (t ! (s - 1)))" if "occurs_at t p s"
  proof -
    have "s < length t" using that len unfolding occurs_at_def by arith
    moreover have "wordchar E (t ! s)" using hd_t [OF that] p(2) by simp
    ultimately show ?thesis by (auto simp: word_boundary_def)
  qed
  have right: "word_boundary E t ?j \<longleftrightarrow> (?j = length t \<or> \<not> wordchar E (t ! ?j))" if "occurs_at t p s"
  proof -
    have "?j \<le> length t" using that unfolding occurs_at_def by arith
    moreover have "wordchar E (t ! (?j - 1))" using last_t [OF that] p(3) by simp
    ultimately show ?thesis using len by (auto simp: word_boundary_def)
  qed
  have run: "e < length t \<and> \<not> wordchar E (t ! e)" if "?j \<le> e" "e < ?j + ?k" for e
    using takeWhile_run [OF that] sep by (simp add: separators_not_words_def)
  have some_iff: "first_match ?f (rev [?j ..< Suc (?j + ?k)]) \<noteq> None \<longleftrightarrow> word_boundary E t ?j"
    if occ: "occurs_at t p s"
  proof
    assume "word_boundary E t ?j"
    then have "?f ?j \<noteq> None" by simp
    moreover have "?j \<in> set (rev [?j ..< Suc (?j + ?k)])" by simp
    ultimately show "first_match ?f (rev [?j ..< Suc (?j + ?k)]) \<noteq> None"
      by (metis first_match_None_iff)
  next
    assume "first_match ?f (rev [?j ..< Suc (?j + ?k)]) \<noteq> None"
    show "word_boundary E t ?j"
    proof (rule ccontr)
      assume nb: "\<not> word_boundary E t ?j"
      with right [OF occ] have w: "?j < length t" "wordchar E (t ! ?j)"
        using occ by (auto simp: occurs_at_def)
      then have "\<not> trailing_class E (t ! ?j)" using sep by (auto simp: separators_not_words_def)
      with w(1) have "?k = 0" by (simp add: takeWhile_stop)
      with nb have "first_match ?f (rev [?j ..< Suc (?j + ?k)]) = None" by simp
      with \<open>first_match ?f (rev [?j ..< Suc (?j + ?k)]) \<noteq> None\<close> show False by simp
    qed
  qed
  show "match_here E (count_pattern E p) t s = None \<longleftrightarrow> \<not> bounded_at E t p s"
  proof (cases "occurs_at t p s")
    case True
    with pat some_iff [OF True] left [OF True] right [OF True] show ?thesis
      by (auto simp: bounded_at_def)
  next
    case False
    with pat show ?thesis by (simp add: bounded_at_def)
  qed
  show "s < e \<and> s + length p \<le> e \<and> (\<forall>s'. s + length p \<le> s' \<and> s' < e \<longrightarrow> \<not> bounded_at E t p s')"
    if m: "match_here E (count_pattern E p) t s = Some e"
  proof -
    from m pat have fm: "first_match ?f (rev [?j ..< Suc (?j + ?k)]) = Some e"
      by (auto split: if_splits)
    from first_match_Some [OF fm] obtain e' where
      e': "e' \<in> set (rev [?j ..< Suc (?j + ?k)])" "?f e' = Some e" by blast
    from e'(2) have "e' = e" by (simp split: if_splits)
    with e'(1) have e: "?j \<le> e" "e \<le> ?j + ?k" by auto
    have "\<not> bounded_at E t p s'" if s': "?j \<le> s'" "s' < e" for s'
    proof
      assume b: "bounded_at E t p s'"
      then have "occurs_at t p s'" by (simp add: bounded_at_def)
      then have "wordchar E (t ! s')" using hd_t p(2) by simp
      moreover have "\<not> wordchar E (t ! s')" using run [of s'] s' e by simp
      ultimately show False by simp
    qed
    then have free: "\<forall>s'. ?j \<le> s' \<and> s' < e \<longrightarrow> \<not> bounded_at E t p s'" by blast
    have "s < e" using e(1) len by arith
    with e(1) free show ?thesis by blast
  qed
qed

lemma scan_bounded_scan:
  assumes sep: "separators_not_words E"
    and p: "p \<noteq> []" "wordchar E (hd p)" "wordchar E (last p)"
  shows "\<forall>s \<in> set ss. s \<le> length t \<Longrightarrow> lim' \<le> lim \<Longrightarrow>
         \<forall>s \<in> set ss. lim' \<le> s \<and> s < lim \<longrightarrow> \<not> bounded_at E t p s \<Longrightarrow>
         map fst (scan E (count_pattern E p) t lim ss) = bounded_scan E t p lim' ss"
proof (induction ss arbitrary: lim lim')
  case Nil
  show ?case by simp
next
  case (Cons s ss)
  have s: "s \<le> length t" using Cons.prems(1) by simp
  note cpm = count_pattern_match [OF sep p s]
  have rest: "\<forall>s \<in> set ss. s \<le> length t" using Cons.prems(1) by simp
  have same: "map fst (scan E (count_pattern E p) t lim ss) = bounded_scan E t p lim' ss"
    using Cons.IH [OF rest Cons.prems(2)] Cons.prems(3) by simp
  show ?case
  proof (cases "s < lim")
    case True
    then have "\<not> (lim' \<le> s \<and> bounded_at E t p s)" using Cons.prems(3) by auto
    with True same show ?thesis by auto
  next
    case False
    then have ls: "lim' \<le> s" using Cons.prems(2) by simp
    show ?thesis
    proof (cases "match_here E (count_pattern E p) t s")
      case None
      with cpm(1) have "\<not> bounded_at E t p s" by simp
      with None False same show ?thesis by simp
    next
      case (Some e)
      with cpm(1) have b: "bounded_at E t p s" by auto
      from cpm(2) [OF Some] have e: "s < e" "s + length p \<le> e"
        "\<forall>s'. s + length p \<le> s' \<and> s' < e \<longrightarrow> \<not> bounded_at E t p s'" by auto
      have "map fst (scan E (count_pattern E p) t e ss) = bounded_scan E t p (s + length p) ss"
        using Cons.IH [OF rest e(2)] e(3) by simp
      with Some False b ls e(1) show ?thesis by simp
    qed
  qed
qed

lemma bounded_apart:
  assumes w: "\<forall>c \<in> set p. wordchar E c"
    and b: "bounded_at E t p s" "bounded_at E t p s'" and lt: "s < s'"
  shows "s + length p \<le> s'"
proof (rule ccontr)
  assume "\<not> s + length p \<le> s'"
  then have k: "s' - 1 - s < length p" using lt by arith
  have "occurs_at t p s" using b(1) by (simp add: bounded_at_def)
  from occurs_at_nth [OF this k] have "t ! (s' - 1) = p ! (s' - 1 - s)" using lt by simp
  then have "wordchar E (t ! (s' - 1))" using w k by simp
  moreover have "\<not> wordchar E (t ! (s' - 1))" using b(2) lt by (simp add: bounded_at_def)
  ultimately show False by simp
qed

lemma bounded_scan_filter:
  assumes w: "\<forall>c \<in> set p. wordchar E c"
  shows "sorted_wrt (<) ss \<Longrightarrow> \<forall>s \<in> set ss. s < lim \<longrightarrow> \<not> bounded_at E t p s \<Longrightarrow>
         bounded_scan E t p lim ss = filter (bounded_at E t p) ss"
proof (induction ss arbitrary: lim)
  case Nil
  show ?case by simp
next
  case (Cons s ss)
  have sorted: "sorted_wrt (<) ss" and above: "\<forall>s' \<in> set ss. s < s'" using Cons.prems(1) by auto
  show ?case
  proof (cases "bounded_at E t p s")
    case True
    then have "lim \<le> s" using Cons.prems(2) by force
    moreover have "\<forall>s' \<in> set ss. s' < s + length p \<longrightarrow> \<not> bounded_at E t p s'"
      using bounded_apart [OF w True] above by force
    ultimately show ?thesis using True Cons.IH [OF sorted, of "s + length p"] by simp
  next
    case False
    then show ?thesis using Cons.IH [OF sorted, of lim] Cons.prems(2) by simp
  qed
qed

lemma separators_not_words_pure: "separators_not_words pure_env"
  by (auto simp: separators_not_words_def trailing_class_def wordchar_def pure_env_def
      ascii_env_def ascii_isalnum_def ascii_isspace_def)

text \<open>
  What \<open>count_phrase_occurrences\<close> counts for a phrase whose lowered form is not empty
  and starts and ends with a word character: the word-bounded occurrences of the lowered
  phrase in the lowered text that a scan from left to right counts when it passes over an
  occurrence that starts inside the one counted before; when every character of the
  phrase is a word character, that is the number of all word-bounded occurrences.
\<close>

theorem count_is_disjoint_bounded_count:
  "(separators_not_words E \<and> lower E phrase \<noteq> [] \<and> wordchar E (hd (lower E phrase))
      \<and> wordchar E (last (lower E phrase)) \<longrightarrow>
      count_phrase_occurrences E text phrase = disjoint_count E (lower E text) (lower E phrase)
      \<and> ((\<forall>c \<in> set (lower E phrase). wordchar E c) \<longrightarrow>
           count_phrase_occurrences E text phrase = bounded_count E (lower E text) (lower E phrase)))
   \<and> count_phrase_occurrences pure_env (ustr ''dishy rishi'') (ustr ''rishi'') = 1
   \<and> count_phrase_occurrences pure_env (ustr ''dishyrishi'') (ustr ''rishi'') = 0"
proof (intro conjI impI)
  let ?t = "lower E text" and ?p = "lower E phrase"
  assume h: "separators_not_words E \<and> ?p \<noteq> [] \<and> wordchar E (hd ?p) \<and> wordchar E (last ?p)"
  then have sep: "separators_not_words E" and p: "?p \<noteq> []" "wordchar E (hd ?p)" "wordchar E (last ?p)"
    by simp_all
  have "map fst (scan E (count_pattern E ?p) ?t 0 [0 ..< Suc (length ?t)])
      = bounded_scan E ?t ?p 0 [0 ..< Suc (length ?t)]"
    by (rule scan_bounded_scan [OF sep p]) auto
  then have "length (scan E (count_pattern E ?p) ?t 0 [0 ..< Suc (length ?t)])
      = length (bounded_scan E ?t ?p 0 [0 ..< Suc (length ?t)])"
    by (metis length_map)
  then show disj: "count_phrase_occurrences E text phrase = disjoint_count E ?t ?p"
    by (simp add: count_phrase_occurrences_def findall_def disjoint_count_def)
  assume w: "\<forall>c \<in> set ?p. wordchar E c"
  have "bounded_scan E ?t ?p 0 [0 ..< Suc (length ?t)] = filter (bounded_at E ?t ?p) [0 ..< Suc (length ?t)]"
    by (rule bounded_scan_filter [OF w]) (simp_all add: sorted_wrt_upt del: upt_Suc)
  with disj show "count_phrase_occurrences E text phrase = bounded_count E ?t ?p"
    by (simp add: disjoint_count_def bounded_count_def)
next
  show "count_phrase_occurrences pure_env (ustr ''dishy rishi'') (ustr ''rishi'') = 1"
    by code_simp
  show "count_phrase_occurrences pure_env (ustr ''dishyrishi'') (ustr ''rishi'') = 0"
    by code_simp
qed

theorem count_is_disjoint_bounded_count_witness:
  "separators_not_words pure_env
   \<and> lower pure_env (ustr ''Dishy Rishi'') = ustr ''dishy rishi''
   \<and> wordchar pure_env 100 \<and> wordchar pure_env 105
   \<and> count_phrase_occurrences pure_env (ustr ''Dishy Rishi, dishy rishi!'') (ustr ''Dishy Rishi'') = 2
   \<and> disjoint_count pure_env (lower pure_env (ustr ''Dishy Rishi, dishy rishi!''))
        (lower pure_env (ustr ''Dishy Rishi'')) = 2"
proof -
  have l: "lower pure_env (ustr ''Dishy Rishi'') = ustr ''dishy rishi''" by code_simp
  have w: "wordchar pure_env 100" "wordchar pure_env 105" by code_simp+
  have c: "count_phrase_occurrences pure_env (ustr ''Dishy Rishi, dishy rishi!'') (ustr ''Dishy Rishi'') = 2"
    by code_simp
  have hl: "hd (ustr ''dishy rishi'') = 100" "last (ustr ''dishy rishi'') = 105" "ustr ''dishy rishi'' \<noteq> []"
    by (simp_all add: ustr_def)
  show ?thesis
    using count_is_disjoint_bounded_count [of pure_env "ustr ''Dishy Rishi''" "ustr ''Dishy Rishi, dishy rishi!''"]
      separators_not_words_pure l w c hl by simp
qed

text \<open>
  Occurrences that overlap are counted once: \<open>a a\<close> has two word-bounded occurrences
  in \<open>a a a\<close>, at 0 and at 2, and \<open>re.findall\<close> counts one.
\<close>

theorem count_overlap_counterexample:
  "count_phrase_occurrences pure_env (ustr ''a a a'') (ustr ''a a'') = 1
   \<and> bounded_count pure_env (lower pure_env (ustr ''a a a'')) (lower pure_env (ustr ''a a'')) = 2"
  by code_simp

text \<open>
  Where the phrase starts or ends with a character that is not a word character, \<open>\b\<close>
  asks for a word character on the other side: line 19 misses the bounded \<open>c++\<close> and
  counts a \<open>#tag\<close> that follows a letter.
\<close>

lemma count_nonword_edges:
  "count_phrase_occurrences pure_env (ustr ''i love c++'') (ustr ''c++'') = 0
   \<and> bounded_count pure_env (ustr ''i love c++'') (ustr ''c++'') = 1
   \<and> count_phrase_occurrences pure_env (ustr ''x#tag'') (ustr ''#tag'') = 1
   \<and> bounded_count pure_env (ustr ''x#tag'') (ustr ''#tag'') = 0"
  by code_simp

section \<open>DateExtractor: metadata, then the URL, then the sentinel\<close>

lemma search_from_None:
  "(\<And>s. s \<in> set ss \<Longrightarrow> match_here E as t s = None) \<Longrightarrow> search_from E as t ss = None"
  by (induction ss) auto

lemma search_from_first:
  "(\<And>s. s \<in> set xs \<Longrightarrow> match_here E as t s = None) \<Longrightarrow> match_here E as t i = Some e \<Longrightarrow>
   search_from E as t (xs @ i # ys) = Some (i, e)"
  by (induction xs) auto

lemma upt_split: "i \<le> n \<Longrightarrow> [0 ..< Suc n] = [0 ..< i] @ i # [Suc i ..< Suc n]"
proof -
  assume i: "i \<le> n"
  then have "[0 ..< Suc n] = [0 ..< i + (Suc n - i)]" by simp
  also have "\<dots> = [0 ..< i] @ [i ..< i + (Suc n - i)]" by (rule upt_add_eq_append) simp
  also have "[i ..< i + (Suc n - i)] = i # [Suc i ..< Suc n]" using i by (simp add: upt_conv_Cons del: upt_Suc)
  finally show ?thesis .
qed

lemma re_search_first:
  assumes "i \<le> length t" "match_here E as t i = Some e" "\<And>j. j < i \<Longrightarrow> match_here E as t j = None"
  shows "re_search E as t = Some (i, e)"
  unfolding re_search_def upt_split [OF assms(1)]
  by (rule search_from_first) (simp_all add: assms)

lemma re_search_None:
  assumes "\<And>j. j \<le> length t \<Longrightarrow> match_here E as t j = None"
  shows "re_search E as t = None"
  unfolding re_search_def by (rule search_from_None) (simp add: assms less_Suc_eq_le del: upt_Suc)

lemma add_small:
  "i + 1 = Suc i" "i + 2 = Suc (Suc i)" "i + 3 = Suc (Suc (Suc i))" "i + 4 = Suc (Suc (Suc (Suc i)))"
  "i + 5 = Suc (Suc (Suc (Suc (Suc i))))" "i + 6 = Suc (Suc (Suc (Suc (Suc (Suc i)))))"
  "i + 7 = Suc (Suc (Suc (Suc (Suc (Suc (Suc i))))))"
  "i + 8 = Suc (Suc (Suc (Suc (Suc (Suc (Suc (Suc i)))))))"
  "i + 9 = Suc (Suc (Suc (Suc (Suc (Suc (Suc (Suc (Suc i))))))))"
  "i + 10 = Suc (Suc (Suc (Suc (Suc (Suc (Suc (Suc (Suc (Suc i)))))))))"
  by simp_all

lemma date_pattern_match:
  "match_here E (date_pattern E) url i = (if ymd_at E url i then Some (i + 10) else None)"
proof -
  have pat: "date_pattern E = [digit E, digit E, digit E, digit E, Chr (\<lambda>c. c = 47), digit E, digit E,
      Chr (\<lambda>c. c = 47), digit E, digit E]"
    by (simp add: date_pattern_def numeral_eq_Suc)
  show ?thesis
    unfolding pat digit_def
    by (auto simp: ymd_at_def is_digit_def add_small)
qed

lemma year_pattern_match:
  "match_here E (year_pattern E) link i = (if year_at E link i then Some (i + 4) else None)"
proof -
  have pat: "year_pattern E = [digit E, digit E, digit E, digit E]"
    by (simp add: year_pattern_def numeral_eq_Suc)
  show ?thesis
    unfolding pat digit_def
    by (auto simp: year_at_def is_digit_def add_small)
qed

text \<open>
  C7 (as amended). \<open>extract_date\<close> is a total function into strings (it never raises).
  When the \<open>meta\<close> element it looks at (the first with
  \<open>property="article:published_time"\<close>, else the first with \<open>name="date"\<close>) has a
  content that is not empty, it returns the first 10 characters of that content;
  otherwise, when the URL holds four digits, a slash, two digits, a slash and two digits,
  it returns those of the leftmost such place joined with hyphens; otherwise it returns
  the string of line 110, which is not \<open>unknown\<close> but the Russian word for it.
\<close>

theorem extract_date_priority:
  "(timestamp soup = Some c \<longrightarrow> extract_date E soup url = take 10 c)
   \<and> (timestamp soup = None \<and> ymd_at E url i \<and> (\<forall>j < i. \<not> ymd_at E url j) \<longrightarrow>
        extract_date E soup url =
          slice url i (i + 4) @ [45] @ slice url (i + 5) (i + 7) @ [45] @ slice url (i + 8) (i + 10))
   \<and> (timestamp soup = None \<and> (\<forall>j. \<not> ymd_at E url j) \<longrightarrow> extract_date E soup url = unknown_date)
   \<and> extract_date pure_env bare_soup (ustr ''https://www.thesun.co.uk/news/2025/03/14/story'') = ustr ''2025-03-14''"
proof (intro conjI impI)
  assume "timestamp soup = Some c"
  then show "extract_date E soup url = take 10 c" by (simp add: extract_date_def)
next
  assume h: "timestamp soup = None \<and> ymd_at E url i \<and> (\<forall>j < i. \<not> ymd_at E url j)"
  then have "i \<le> length url" by (simp add: ymd_at_def)
  then have "re_search E (date_pattern E) url = Some (i, i + 10)"
    by (rule re_search_first) (use h in \<open>simp_all add: date_pattern_match\<close>)
  with h show "extract_date E soup url =
      slice url i (i + 4) @ [45] @ slice url (i + 5) (i + 7) @ [45] @ slice url (i + 8) (i + 10)"
    by (simp add: extract_date_def)
next
  assume h: "timestamp soup = None \<and> (\<forall>j. \<not> ymd_at E url j)"
  then have "re_search E (date_pattern E) url = None"
    by (intro re_search_None) (simp add: date_pattern_match)
  with h show "extract_date E soup url = unknown_date" by (simp add: extract_date_def)
next
  show "extract_date pure_env bare_soup (ustr ''https://www.thesun.co.uk/news/2025/03/14/story'') = ustr ''2025-03-14''"
    by code_simp
qed

theorem extract_date_priority_witness:
  "timestamp example_soup = Some (ustr ''2025-03-14T09:30:00+00:00'')
   \<and> extract_date pure_env example_soup (ustr ''https://www.thesun.co.uk/news/2024/01/02/story/'') = ustr ''2025-03-14''
   \<and> timestamp bare_soup = None
   \<and> ymd_at pure_env (ustr ''https://www.thesun.co.uk/news/2025/03/14/story'') 30
   \<and> filter (ymd_at pure_env (ustr ''https://www.thesun.co.uk/news/2025/03/14/story'')) [0 ..< 30] = []
   \<and> extract_date pure_env bare_soup (ustr ''https://www.thesun.co.uk/news/2025/03/14/story'') = ustr ''2025-03-14''
   \<and> filter (ymd_at pure_env (ustr ''https://www.thesun.co.uk/news/story'')) [0 ..< 36] = []
   \<and> length (ustr ''https://www.thesun.co.uk/news/story'') = 35
   \<and> extract_date pure_env bare_soup (ustr ''https://www.thesun.co.uk/news/story'') = unknown_date"
proof -
  let ?u2 = "ustr ''https://www.thesun.co.uk/news/2025/03/14/story''"
  let ?u3 = "ustr ''https://www.thesun.co.uk/news/story''"
  have t1: "timestamp example_soup = Some (ustr ''2025-03-14T09:30:00+00:00'')" by code_simp
  have t2: "timestamp bare_soup = None" by code_simp
  have y: "ymd_at pure_env ?u2 30" by code_simp
  have f2: "filter (ymd_at pure_env ?u2) [0 ..< 30] = []" by code_simp
  have f3: "filter (ymd_at pure_env ?u3) [0 ..< 36] = []" by code_simp
  have l3: "length ?u3 = 35" by (simp add: ustr_def)
  have n2: "\<forall>j < 30. \<not> ymd_at pure_env ?u2 j"
    using f2 by (simp add: filter_empty_conv)
  have n3: "\<forall>j. \<not> ymd_at pure_env ?u3 j"
  proof
    fix j
    show "\<not> ymd_at pure_env ?u3 j"
    proof (cases "j < 36")
      case True
      with f3 show ?thesis by (simp add: filter_empty_conv)
    next
      case False
      with l3 show ?thesis by (simp add: ymd_at_def)
    qed
  qed
  have c: "take 10 (ustr ''2025-03-14T09:30:00+00:00'') = ustr ''2025-03-14''" by (simp add: ustr_def)
  have s: "slice ?u2 30 (30 + 4) @ [45] @ slice ?u2 (30 + 5) (30 + 7) @ [45] @ slice ?u2 (30 + 8) (30 + 10)
      = ustr ''2025-03-14''" by (simp add: ustr_def slice_def)
  show ?thesis
    using extract_date_priority [of example_soup "ustr ''2025-03-14T09:30:00+00:00''" pure_env
        "ustr ''https://www.thesun.co.uk/news/2024/01/02/story/''" 0]
      extract_date_priority [of bare_soup "[]" pure_env ?u2 30]
      extract_date_priority [of bare_soup "[]" pure_env ?u3 0]
      t1 t2 y f2 f3 l3 n2 n3 c s
    by simp
qed

text \<open>
  The claim as stated fails on the sentinel: with no date in the document or the URL the
  result is the ten Cyrillic letters of line 110.
\<close>

theorem extract_date_sentinel_counterexample:
  "extract_date pure_env bare_soup (ustr ''https://www.thesun.co.uk/news/story'') = unknown_date
   \<and> unknown_date \<noteq> ustr ''unknown''"
  by code_simp

section \<open>The fetch loops, attempt by attempt\<close>

lemma trace_emit: "trace (emit W ev) = trace W @ [ev]"
  by (simp add: emit_def)

lemma cache_emit: "cache (emit W ev) = cache W"
  by (simp add: emit_def)

lemma requests_emit: "requests (emit W ev) = (if is_get ev then Suc (requests W) else requests W)"
  by (simp add: emit_def requests_def)

lemma requested_append: "requested (xs @ ys) = requested xs @ requested ys"
  by (induction xs rule: requested.induct) simp_all

lemma filter_is_get: "length (filter is_get evs) = length (requested evs)"
  by (induction evs rule: requested.induct) simp_all

lemma requests_requested: "requests W = length (requested (trace W))"
  by (simp add: requests_def filter_is_get)

text \<open>One attempt of the resolver, by the reply it gets.\<close>

lemma sitemap_try_not_ok:
  assumes "not_ok (session_get E (requests W) u)"
  shows "sitemap_try E W u k =
     (Inr None, W\<lparr>trace := trace W @ attempt_events u k (session_get E (requests W) u)\<rparr>)
   \<or> sitemap_try E W u k =
     (Inl ClientError, W\<lparr>trace := trace W @ [Get u]\<rparr>) \<and> session_get E (requests W) u = Failure"
  using assms
  by (auto simp: sitemap_try_def not_ok_def attempt_events_def backs_off_def emit_def Let_def
      split: reply.splits)

lemma sitemap_loop_not_ok:
  assumes "not_ok (session_get E (requests W) u)"
  shows "sitemap_loop E u (k # rest) W =
     sitemap_loop E u rest (W\<lparr>trace := trace W @ attempt_events u k (session_get E (requests W) u)\<rparr>)"
  using sitemap_try_not_ok [OF assms, of k]
  by (auto simp: attempt_events_def backs_off_def emit_def)

lemma sitemap_loop_malformed:
  assumes "session_get E (requests W) u = Response 200 body" "fromstring E body = None"
  shows "sitemap_loop E u (k # rest) W =
     sitemap_loop E u rest (W\<lparr>trace := trace W @ [Get u, Parse, Sleep (2 ^ k)]\<rparr>)"
  using assms by (simp add: sitemap_try_def emit_def Let_def)

lemma sitemap_loop_ok:
  assumes "session_get E (requests W) u = Response 200 body" "fromstring E body = Some tree"
  shows "sitemap_loop E u (k # rest) W =
     (Inr (links_of tree), W\<lparr>trace := trace W @ [Get u, Parse], cache := (cache W)(u \<mapsto> links_of tree)\<rparr>)"
  using assms by (simp add: sitemap_try_def emit_def Let_def)

lemma requests_attempt:
  "requests (W\<lparr>trace := trace W @ attempt_events u k r\<rparr>) = Suc (requests W)"
  by (simp add: requests_def attempt_events_def)

lemma requests_malformed:
  "requests (W\<lparr>trace := trace W @ [Get u, Parse, Sleep n]\<rparr>) = Suc (requests W)"
  by (simp add: requests_def)

text \<open>
  What one attempt of the resolver does to the world: a request for \<open>u\<close>, then at most a
  call of the parser and a delay; the cache changes only when links are returned.
\<close>

lemma sitemap_try_run:
  "\<exists>evs. trace (snd (sitemap_try E W u k)) = trace W @ Get u # evs
     \<and> set evs \<subseteq> {Parse, Sleep (2 ^ k)}
     \<and> (\<forall>links. fst (sitemap_try E W u k) = Inr (Some links) \<longrightarrow>
            cache (snd (sitemap_try E W u k)) = (cache W)(u \<mapsto> links))
     \<and> ((\<forall>links. fst (sitemap_try E W u k) \<noteq> Inr (Some links)) \<longrightarrow>
            cache (snd (sitemap_try E W u k)) = cache W)"
  by (auto simp: sitemap_try_def Let_def emit_def split: reply.splits option.splits)

lemma sitemap_loop_run:
  "\<exists>links evs. fst (sitemap_loop E u ks W) = Inr links
     \<and> trace (snd (sitemap_loop E u ks W)) = trace W @ evs
     \<and> set evs \<subseteq> insert (Get u) (insert Parse (range Sleep))
     \<and> length (requested evs) \<le> length ks
     \<and> (ks \<noteq> [] \<longrightarrow> Get u \<in> set evs)
     \<and> (cache (snd (sitemap_loop E u ks W)) = cache W \<and> links = []
        \<or> cache (snd (sitemap_loop E u ks W)) = (cache W)(u \<mapsto> links))"
proof (induction ks arbitrary: W)
  case Nil
  show ?case by simp
next
  case (Cons k ks)
  obtain x W1 where T: "sitemap_try E W u k = (x, W1)" by (cases "sitemap_try E W u k")
  have "\<exists>evs1. trace W1 = trace W @ Get u # evs1 \<and> set evs1 \<subseteq> {Parse, Sleep (2 ^ k)}
      \<and> (\<forall>links. x = Inr (Some links) \<longrightarrow> cache W1 = (cache W)(u \<mapsto> links))
      \<and> ((\<forall>links. x \<noteq> Inr (Some links)) \<longrightarrow> cache W1 = cache W)"
    using sitemap_try_run [of E W u k] unfolding T by simp
  then obtain evs1 where
    tr1: "trace W1 = trace W @ Get u # evs1" and ev1: "set evs1 \<subseteq> {Parse, Sleep (2 ^ k)}"
    and c1: "\<forall>links. x = Inr (Some links) \<longrightarrow> cache W1 = (cache W)(u \<mapsto> links)"
      "(\<forall>links. x \<noteq> Inr (Some links)) \<longrightarrow> cache W1 = cache W"
    by blast
  have rq1: "requested (Get u # evs1) = [u]"
  proof -
    have "requested evs = []" if "set evs \<subseteq> {Parse, Sleep n}" for evs n
      using that by (induction evs rule: requested.induct) auto
    with ev1 show ?thesis by simp
  qed
  show ?case
  proof (cases x)
    case (Inr opt)
    show ?thesis
    proof (cases opt)
      case (Some links)
      with Inr T have "sitemap_loop E u (k # ks) W = (Inr links, W1)" by simp
      moreover have "cache W1 = (cache W)(u \<mapsto> links)" using c1 Inr Some by simp
      ultimately show ?thesis using tr1 ev1 rq1
        by (intro exI [of _ links] exI [of _ "Get u # evs1"]) auto
    next
      case None
      with Inr T have loop: "sitemap_loop E u (k # ks) W = sitemap_loop E u ks W1" by simp
      have cw: "cache W1 = cache W" using c1 Inr None by simp
      from Cons.IH [of W1] obtain links evs where
        ih: "fst (sitemap_loop E u ks W1) = Inr links"
          "trace (snd (sitemap_loop E u ks W1)) = trace W1 @ evs"
          "set evs \<subseteq> insert (Get u) (insert Parse (range Sleep))"
          "length (requested evs) \<le> length ks"
          "cache (snd (sitemap_loop E u ks W1)) = cache W1 \<and> links = []
           \<or> cache (snd (sitemap_loop E u ks W1)) = (cache W1)(u \<mapsto> links)"
        by blast
      show ?thesis
        unfolding loop using ih tr1 ev1 rq1 cw
        by (intro exI [of _ links] exI [of _ "Get u # evs1 @ evs"]) (auto simp: requested_append)
    qed
  next
    case (Inl e)
    let ?W2 = "emit W1 (Sleep (2 ^ k))"
    from Inl T have loop: "sitemap_loop E u (k # ks) W = sitemap_loop E u ks ?W2" by simp
    have cw: "cache ?W2 = cache W" using c1 Inl by (simp add: cache_emit)
    have tr2: "trace ?W2 = trace W @ Get u # evs1 @ [Sleep (2 ^ k)]" using tr1 by (simp add: trace_emit)
    from Cons.IH [of ?W2] obtain links evs where
      ih: "fst (sitemap_loop E u ks ?W2) = Inr links"
        "trace (snd (sitemap_loop E u ks ?W2)) = trace ?W2 @ evs"
        "set evs \<subseteq> insert (Get u) (insert Parse (range Sleep))"
        "length (requested evs) \<le> length ks"
        "cache (snd (sitemap_loop E u ks ?W2)) = cache ?W2 \<and> links = []
         \<or> cache (snd (sitemap_loop E u ks ?W2)) = (cache ?W2)(u \<mapsto> links)"
      by blast
    show ?thesis
      unfolding loop using ih tr2 ev1 rq1 cw
      by (intro exI [of _ links] exI [of _ "Get u # evs1 @ Sleep (2 ^ k) # evs"])
        (auto simp: requested_append)
  qed
qed

lemma get_sitemap_links_miss:
  "cache W u = None \<Longrightarrow> get_sitemap_links E W u = sitemap_loop E u [0, 1, 2] W"
  by (simp only: get_sitemap_links_def option.case)

lemma get_sitemap_links_hit:
  "cache W u = Some links \<Longrightarrow> get_sitemap_links E W u = (Inr links, W)"
  by (simp only: get_sitemap_links_def option.case)

lemma get_sitemap_links_run:
  "\<exists>links evs. fst (get_sitemap_links E W u) = Inr links
     \<and> trace (snd (get_sitemap_links E W u)) = trace W @ evs
     \<and> set evs \<subseteq> insert (Get u) (insert Parse (range Sleep))
     \<and> length (requested evs) \<le> 3
     \<and> (cache W u = None \<longrightarrow> Get u \<in> set evs)
     \<and> (cache (snd (get_sitemap_links E W u)) = cache W
        \<or> cache (snd (get_sitemap_links E W u)) = (cache W)(u \<mapsto> links))"
proof (cases "cache W u")
  case None
  define L where "L = sitemap_loop E u [0, 1, 2] W"
  have G: "get_sitemap_links E W u = L" unfolding L_def using None by (rule get_sitemap_links_miss)
  have "\<exists>links evs. fst L = Inr links \<and> trace (snd L) = trace W @ evs
     \<and> set evs \<subseteq> insert (Get u) (insert Parse (range Sleep))
     \<and> length (requested evs) \<le> length [0, 1, 2 :: nat]
     \<and> ([0, 1, 2 :: nat] \<noteq> [] \<longrightarrow> Get u \<in> set evs)
     \<and> (cache (snd L) = cache W \<and> links = [] \<or> cache (snd L) = (cache W)(u \<mapsto> links))"
    unfolding L_def by (rule sitemap_loop_run)
  then obtain links evs where
    h: "fst L = Inr links" "trace (snd L) = trace W @ evs"
      "set evs \<subseteq> insert (Get u) (insert Parse (range Sleep))"
      "length (requested evs) \<le> 3" "Get u \<in> set evs"
      "cache (snd L) = cache W \<or> cache (snd L) = (cache W)(u \<mapsto> links)"
    by auto
  show ?thesis
    unfolding G using h by (intro exI [of _ links] exI [of _ evs]) simp
next
  case (Some links)
  show ?thesis
    unfolding get_sitemap_links_hit [OF Some] using Some
    by (intro exI [of _ links] exI [of _ "[]"]) simp
qed

text \<open>One attempt of the page fetcher, by the reply it gets.\<close>

lemma page_loop_not_ok:
  assumes "not_ok (session_get E (requests W) u)"
  shows "page_loop E (Some u) phrase (k # rest) W =
     page_loop E (Some u) phrase rest
       (W\<lparr>trace := trace W @ attempt_events u k (session_get E (requests W) u)\<rparr>)"
  using assms
  by (auto simp: page_try_def not_ok_def attempt_events_def backs_off_def emit_def Let_def
      split: reply.splits)

lemma page_loop_malformed:
  assumes "session_get E (requests W) u = Response 200 body" "html_parser E body = None"
  shows "page_loop E (Some u) phrase (k # rest) W =
     page_loop E (Some u) phrase rest (W\<lparr>trace := trace W @ [Get u, Parse, Sleep (2 ^ k)]\<rparr>)"
  using assms by (simp add: page_try_def emit_def Let_def)

lemma page_try_run:
  "\<exists>evs. trace (snd (page_try E W a phrase k)) = trace W @ evs
     \<and> Acquire \<notin> set evs \<and> Release \<notin> set evs \<and> length (requested evs) \<le> 1
     \<and> cache (snd (page_try E W a phrase k)) = cache W"
  by (auto simp: page_try_def Let_def emit_def split: reply.splits option.splits)

lemma page_loop_run:
  "\<exists>r evs. fst (page_loop E a phrase ks W) = Inr r
     \<and> trace (snd (page_loop E a phrase ks W)) = trace W @ evs
     \<and> Acquire \<notin> set evs \<and> Release \<notin> set evs \<and> length (requested evs) \<le> length ks
     \<and> cache (snd (page_loop E a phrase ks W)) = cache W"
proof (induction ks arbitrary: W)
  case Nil
  show ?case by simp
next
  case (Cons k ks)
  obtain x W1 where T: "page_try E W a phrase k = (x, W1)" by (cases "page_try E W a phrase k")
  have "\<exists>evs1. trace W1 = trace W @ evs1 \<and> Acquire \<notin> set evs1 \<and> Release \<notin> set evs1
      \<and> length (requested evs1) \<le> 1 \<and> cache W1 = cache W"
    using page_try_run [of E W a phrase k] unfolding T by simp
  then obtain evs1 where
    tr1: "trace W1 = trace W @ evs1" and ev1: "Acquire \<notin> set evs1" "Release \<notin> set evs1"
    and rq1: "length (requested evs1) \<le> 1" and c1: "cache W1 = cache W"
    by blast
  have step: "\<exists>r evs. fst (page_loop E a phrase ks W2) = Inr r
     \<and> trace (snd (page_loop E a phrase ks W2)) = trace W @ evs
     \<and> Acquire \<notin> set evs \<and> Release \<notin> set evs \<and> length (requested evs) \<le> length (k # ks)
     \<and> cache (snd (page_loop E a phrase ks W2)) = cache W"
    if W2: "trace W2 = trace W1 @ evs2" "set evs2 \<subseteq> range Sleep" "cache W2 = cache W1" for W2 evs2
  proof -
    have r2: "requested evs2 = []" using W2(2) by (induction evs2 rule: requested.induct) auto
    from Cons.IH [of W2] obtain r evs where
      ih: "fst (page_loop E a phrase ks W2) = Inr r"
        "trace (snd (page_loop E a phrase ks W2)) = trace W2 @ evs"
        "Acquire \<notin> set evs" "Release \<notin> set evs" "length (requested evs) \<le> length ks"
        "cache (snd (page_loop E a phrase ks W2)) = cache W2"
      by blast
    show ?thesis
      using ih tr1 ev1 rq1 c1 W2 r2
      by (intro exI [of _ r] exI [of _ "evs1 @ evs2 @ evs"]) (auto simp: requested_append)
  qed
  show ?case
  proof (cases x)
    case (Inr opt)
    show ?thesis
    proof (cases opt)
      case (Some r)
      with Inr T have "page_loop E a phrase (k # ks) W = (Inr r, W1)" by simp
      then show ?thesis using tr1 ev1 rq1 c1
        by (intro exI [of _ r] exI [of _ evs1]) auto
    next
      case None
      with Inr T have loop: "page_loop E a phrase (k # ks) W = page_loop E a phrase ks W1" by simp
      show ?thesis unfolding loop using step [of W1 "[]"] by simp
    qed
  next
    case (Inl e)
    with T have loop: "page_loop E a phrase (k # ks) W = page_loop E a phrase ks (emit W1 (Sleep (2 ^ k)))"
      by simp
    show ?thesis unfolding loop
      using step [of "emit W1 (Sleep (2 ^ k))" "[Sleep (2 ^ k)]"] by (simp add: trace_emit cache_emit)
  qed
qed

lemma extract_text_from_url_run:
  "\<exists>r evs. fst (extract_text_from_url E W a phrase) = Inr r
     \<and> trace (snd (extract_text_from_url E W a phrase)) = trace W @ [Acquire] @ evs @ [Release]
     \<and> Acquire \<notin> set evs \<and> Release \<notin> set evs \<and> length (requested evs) \<le> 3
     \<and> cache (snd (extract_text_from_url E W a phrase)) = cache W"
proof -
  define P where "P = page_loop E a phrase [0, 1, 2] (emit W Acquire)"
  obtain x W1 where L: "P = (x, W1)" by (cases P)
  have "\<exists>r evs. fst P = Inr r \<and> trace (snd P) = trace (emit W Acquire) @ evs
     \<and> Acquire \<notin> set evs \<and> Release \<notin> set evs \<and> length (requested evs) \<le> length [0, 1, 2 :: nat]
     \<and> cache (snd P) = cache (emit W Acquire)"
    unfolding P_def by (rule page_loop_run)
  then have "\<exists>r evs. x = Inr r \<and> trace W1 = trace (emit W Acquire) @ evs
     \<and> Acquire \<notin> set evs \<and> Release \<notin> set evs \<and> length (requested evs) \<le> 3
     \<and> cache W1 = cache (emit W Acquire)"
    unfolding L by (simp add: numeral_3_eq_3)
  then obtain r evs where
    h: "x = Inr r" "trace W1 = trace W @ Acquire # evs" "Acquire \<notin> set evs" "Release \<notin> set evs"
      "length (requested evs) \<le> 3" "cache W1 = cache W"
    by (auto simp: trace_emit cache_emit)
  have X: "extract_text_from_url E W a phrase = (x, emit W1 Release)"
    unfolding extract_text_from_url_def P_def [symmetric] L by simp
  show ?thesis
    unfolding X using h
    by (intro exI [of _ r] exI [of _ evs]) (simp add: trace_emit cache_emit)
qed

section \<open>PageFetcher: the count of lines 86-87 at the end of the text\<close>

text \<open>
  C1. The count is the number of occurrences of the phrase bounded on both sides by a
  non-word character, the start or the end of the string: \<open>rishi\<close> occurs once in
  \<open>dishy rishi\<close>, and \<open>count_phrase_occurrences\<close> counts it. The count that
  \<open>extract_text_from_url\<close> makes (lines 86-87) does not: \<open>(?!\w|$)\<close> refuses an
  occurrence that ends the text, so for a page whose content is \<open>Dishy Rishi\<close> the
  count is 0, nothing is put in the queue and \<open>None\<close> is returned. With the full stop
  after it the same occurrence is counted.
\<close>

theorem page_count_misses_end_of_text:
  "length (findall pure_env (phrase_pattern pure_env (ustr ''rishi'')) (ustr ''dishy rishi'')) = 0
   \<and> length (findall pure_env (phrase_pattern pure_env (ustr ''rishi'')) (ustr ''dishy rishi.'')) = 1
   \<and> count_phrase_occurrences pure_env (ustr ''dishy rishi'') (ustr ''rishi'') = 1
   \<and> bounded_count pure_env (ustr ''dishy rishi'') (ustr ''rishi'') = 1
   \<and> fst (extract_text_from_url (example_env (\<lambda>n u. Response 200 (ustr ''rishi page''))) world0
         (Some (ustr ''https://www.thesun.co.uk/news/1/story/'')) (ustr ''rishi'')) = Inr None
   \<and> trace (snd (extract_text_from_url (example_env (\<lambda>n u. Response 200 (ustr ''rishi page'')))
         world0 (Some (ustr ''https://www.thesun.co.uk/news/1/story/'')) (ustr ''rishi'')))
       = [Acquire, Get (ustr ''https://www.thesun.co.uk/news/1/story/''), Parse, Match, Release]"
  by code_simp

section \<open>The fetch loops when attempts fail\<close>

lemma fails_cases:
  "fails E r \<longleftrightarrow> not_ok r \<or> (\<exists>body. r = Response 200 body \<and> fromstring E body = None)"
  by (auto simp: fails_def not_ok_def split: reply.splits)

lemma sitemap_loop_fails:
  assumes "fails E (session_get E (requests W) u)"
  shows "\<exists>W'. sitemap_loop E u (k # rest) W = sitemap_loop E u rest W'
     \<and> cache W' = cache W \<and> requests W' = Suc (requests W)"
proof -
  from assms consider
    (a) "not_ok (session_get E (requests W) u)"
    | (b) body where "session_get E (requests W) u = Response 200 body" "fromstring E body = None"
    unfolding fails_cases by blast
  then show ?thesis
  proof cases
    case a
    show ?thesis
      unfolding sitemap_loop_not_ok [OF a]
      by (rule exI [of _ "W\<lparr>trace := trace W @ attempt_events u k (session_get E (requests W) u)\<rparr>"])
        (simp add: requests_attempt)
  next
    case b
    show ?thesis
      unfolding sitemap_loop_malformed [OF b]
      by (rule exI [of _ "W\<lparr>trace := trace W @ [Get u, Parse, Sleep (2 ^ k)]\<rparr>"])
        (simp add: requests_malformed)
  qed
qed

text \<open>Attempts that fail, then one that gets a document.\<close>

lemma sitemap_loop_later:
  assumes "k < length ks" "\<forall>j < k. fails E (session_get E (requests W + j) u)"
    "session_get E (requests W + k) u = Response 200 body" "fromstring E body = Some tree"
  shows "fst (sitemap_loop E u ks W) = Inr (links_of tree)
     \<and> cache (snd (sitemap_loop E u ks W)) = (cache W)(u \<mapsto> links_of tree)"
  using assms
proof (induction ks arbitrary: k W)
  case Nil
  then show ?case by simp
next
  case (Cons a ks)
  show ?case
  proof (cases k)
    case 0
    with Cons.prems have "session_get E (requests W) u = Response 200 body" by simp
    from sitemap_loop_ok [OF this Cons.prems(4), of a ks] show ?thesis by simp
  next
    case (Suc k')
    with Cons.prems(2) have "fails E (session_get E (requests W) u)" by fastforce
    from sitemap_loop_fails [OF this, of a ks] obtain W' where
      W': "sitemap_loop E u (a # ks) W = sitemap_loop E u ks W'" "cache W' = cache W"
        "requests W' = Suc (requests W)"
      by blast
    have 1: "k' < length ks" using Cons.prems(1) Suc by simp
    have 2: "\<forall>j < k'. fails E (session_get E (requests W' + j) u)"
    proof (intro allI impI)
      fix j assume "j < k'"
      then have "Suc j < k" using Suc by simp
      with Cons.prems(2) have "fails E (session_get E (requests W + Suc j) u)" by blast
      then show "fails E (session_get E (requests W' + j) u)" by (simp add: W'(3))
    qed
    have 3: "session_get E (requests W' + k') u = Response 200 body"
      using Cons.prems(3) Suc by (simp add: W'(3))
    from Cons.IH [OF 1 2 3 Cons.prems(4)] show ?thesis unfolding W'(1) W'(2) .
  qed
qed

lemma sitemap_loop_exhausted:
  assumes "fails E (session_get E (requests W) u)" "fails E (session_get E (requests W + 1) u)"
    "fails E (session_get E (requests W + 2) u)"
  shows "fst (sitemap_loop E u [0, 1, 2] W) = Inr []
     \<and> cache (snd (sitemap_loop E u [0, 1, 2] W)) = cache W
     \<and> requests (snd (sitemap_loop E u [0, 1, 2] W)) = requests W + 3"
proof -
  from sitemap_loop_fails [OF assms(1), of 0 "[1, 2]"] obtain W1 where
    W1: "sitemap_loop E u [0, 1, 2] W = sitemap_loop E u [1, 2] W1" "cache W1 = cache W"
      "requests W1 = Suc (requests W)"
    by blast
  have "fails E (session_get E (requests W1) u)" using assms(2) by (simp add: W1(3))
  from sitemap_loop_fails [OF this, of 1 "[2]"] obtain W2 where
    W2: "sitemap_loop E u [1, 2] W1 = sitemap_loop E u [2] W2" "cache W2 = cache W1"
      "requests W2 = Suc (requests W1)"
    by blast
  have "fails E (session_get E (requests W2) u)" using assms(3) by (simp add: W1(3) W2(3))
  from sitemap_loop_fails [OF this, of 2 "[]"] obtain W3 where
    W3: "sitemap_loop E u [2] W2 = sitemap_loop E u [] W3" "cache W3 = cache W2"
      "requests W3 = Suc (requests W2)"
    by blast
  have "sitemap_loop E u [0, 1, 2] W = (Inr [], W3)"
    unfolding W1(1) W2(1) W3(1) by simp
  then show ?thesis by (simp add: W1 W2 W3)
qed

text \<open>Three replies that are not status 200: the events, one attempt after the other.\<close>

lemma sitemap_loop_three_not_ok:
  assumes "not_ok (session_get E (requests W) u)" "not_ok (session_get E (requests W + 1) u)"
    "not_ok (session_get E (requests W + 2) u)"
  shows "sitemap_loop E u [0, 1, 2] W =
     (Inr [], W\<lparr>trace := trace W @ attempt_events u 0 (session_get E (requests W) u)
          @ attempt_events u 1 (session_get E (requests W + 1) u)
          @ attempt_events u 2 (session_get E (requests W + 2) u)\<rparr>)"
proof -
  define W1 where "W1 = W\<lparr>trace := trace W @ attempt_events u 0 (session_get E (requests W) u)\<rparr>"
  define W2 where "W2 = W1\<lparr>trace := trace W1 @ attempt_events u 1 (session_get E (requests W1) u)\<rparr>"
  define W3 where "W3 = W2\<lparr>trace := trace W2 @ attempt_events u 2 (session_get E (requests W2) u)\<rparr>"
  have q1: "requests W1 = requests W + 1" unfolding W1_def by (simp add: requests_attempt)
  have q2: "requests W2 = requests W + 2" unfolding W2_def by (simp add: requests_attempt q1)
  have "sitemap_loop E u [0, 1, 2] W = sitemap_loop E u [1, 2] W1"
    unfolding W1_def by (rule sitemap_loop_not_ok) (rule assms(1))
  also have "\<dots> = sitemap_loop E u [2] W2"
    unfolding W2_def by (rule sitemap_loop_not_ok) (use assms(2) in \<open>simp add: q1\<close>)
  also have "\<dots> = sitemap_loop E u [] W3"
    unfolding W3_def by (rule sitemap_loop_not_ok) (use assms(3) in \<open>simp add: q2\<close>)
  also have "\<dots> = (Inr [], W3)" by simp
  also have "W3 = W\<lparr>trace := trace W @ attempt_events u 0 (session_get E (requests W) u)
          @ attempt_events u 1 (session_get E (requests W + 1) u)
          @ attempt_events u 2 (session_get E (requests W + 2) u)\<rparr>"
    unfolding W3_def q2 unfolding W2_def q1 unfolding W1_def by simp
  finally show ?thesis .
qed

lemma page_loop_three_not_ok:
  assumes "not_ok (session_get E (requests W) u)" "not_ok (session_get E (requests W + 1) u)"
    "not_ok (session_get E (requests W + 2) u)"
  shows "page_loop E (Some u) phrase [0, 1, 2] W =
     (Inr None, W\<lparr>trace := trace W @ attempt_events u 0 (session_get E (requests W) u)
          @ attempt_events u 1 (session_get E (requests W + 1) u)
          @ attempt_events u 2 (session_get E (requests W + 2) u)\<rparr>)"
proof -
  define W1 where "W1 = W\<lparr>trace := trace W @ attempt_events u 0 (session_get E (requests W) u)\<rparr>"
  define W2 where "W2 = W1\<lparr>trace := trace W1 @ attempt_events u 1 (session_get E (requests W1) u)\<rparr>"
  define W3 where "W3 = W2\<lparr>trace := trace W2 @ attempt_events u 2 (session_get E (requests W2) u)\<rparr>"
  have q1: "requests W1 = requests W + 1" unfolding W1_def by (simp add: requests_attempt)
  have q2: "requests W2 = requests W + 2" unfolding W2_def by (simp add: requests_attempt q1)
  have "page_loop E (Some u) phrase [0, 1, 2] W = page_loop E (Some u) phrase [1, 2] W1"
    unfolding W1_def by (rule page_loop_not_ok) (rule assms(1))
  also have "\<dots> = page_loop E (Some u) phrase [2] W2"
    unfolding W2_def by (rule page_loop_not_ok) (use assms(2) in \<open>simp add: q1\<close>)
  also have "\<dots> = page_loop E (Some u) phrase [] W3"
    unfolding W3_def by (rule page_loop_not_ok) (use assms(3) in \<open>simp add: q2\<close>)
  also have "\<dots> = (Inr None, W3)" by simp
  also have "W3 = W\<lparr>trace := trace W @ attempt_events u 0 (session_get E (requests W) u)
          @ attempt_events u 1 (session_get E (requests W + 1) u)
          @ attempt_events u 2 (session_get E (requests W + 2) u)\<rparr>"
    unfolding W3_def q2 unfolding W2_def q1 unfolding W1_def by simp
  finally show ?thesis .
qed

text \<open>Three bodies that the parser refuses.\<close>

lemma sitemap_loop_three_malformed:
  assumes "session_get E (requests W) u = Response 200 b0" "fromstring E b0 = None"
    "session_get E (requests W + 1) u = Response 200 b1" "fromstring E b1 = None"
    "session_get E (requests W + 2) u = Response 200 b2" "fromstring E b2 = None"
  shows "sitemap_loop E u [0, 1, 2] W =
     (Inr [], W\<lparr>trace := trace W @ [Get u, Parse, Sleep 1, Get u, Parse, Sleep 2, Get u, Parse, Sleep 4]\<rparr>)"
proof -
  define W1 where "W1 = W\<lparr>trace := trace W @ [Get u, Parse, Sleep (2 ^ 0)]\<rparr>"
  define W2 where "W2 = W1\<lparr>trace := trace W1 @ [Get u, Parse, Sleep (2 ^ 1)]\<rparr>"
  define W3 where "W3 = W2\<lparr>trace := trace W2 @ [Get u, Parse, Sleep (2 ^ 2)]\<rparr>"
  have q1: "requests W1 = requests W + 1" unfolding W1_def by (simp add: requests_malformed)
  have q2: "requests W2 = requests W + 2" unfolding W2_def by (simp add: requests_malformed q1)
  have "sitemap_loop E u [0, 1, 2] W = sitemap_loop E u [1, 2] W1"
    unfolding W1_def by (rule sitemap_loop_malformed) (rule assms(1), rule assms(2))
  also have "\<dots> = sitemap_loop E u [2] W2"
    unfolding W2_def by (rule sitemap_loop_malformed [where body = b1]) (use assms in \<open>simp_all add: q1\<close>)
  also have "\<dots> = sitemap_loop E u [] W3"
    unfolding W3_def by (rule sitemap_loop_malformed [where body = b2]) (use assms in \<open>simp_all add: q2\<close>)
  also have "\<dots> = (Inr [], W3)" by simp
  also have "W3 = W\<lparr>trace := trace W @ [Get u, Parse, Sleep 1, Get u, Parse, Sleep 2, Get u, Parse, Sleep 4]\<rparr>"
    unfolding W3_def W2_def W1_def by simp
  finally show ?thesis .
qed

lemma page_loop_three_malformed:
  assumes "session_get E (requests W) u = Response 200 b0" "html_parser E b0 = None"
    "session_get E (requests W + 1) u = Response 200 b1" "html_parser E b1 = None"
    "session_get E (requests W + 2) u = Response 200 b2" "html_parser E b2 = None"
  shows "page_loop E (Some u) phrase [0, 1, 2] W =
     (Inr None, W\<lparr>trace := trace W @ [Get u, Parse, Sleep 1, Get u, Parse, Sleep 2, Get u, Parse, Sleep 4]\<rparr>)"
proof -
  define W1 where "W1 = W\<lparr>trace := trace W @ [Get u, Parse, Sleep (2 ^ 0)]\<rparr>"
  define W2 where "W2 = W1\<lparr>trace := trace W1 @ [Get u, Parse, Sleep (2 ^ 1)]\<rparr>"
  define W3 where "W3 = W2\<lparr>trace := trace W2 @ [Get u, Parse, Sleep (2 ^ 2)]\<rparr>"
  have q1: "requests W1 = requests W + 1" unfolding W1_def by (simp add: requests_malformed)
  have q2: "requests W2 = requests W + 2" unfolding W2_def by (simp add: requests_malformed q1)
  have "page_loop E (Some u) phrase [0, 1, 2] W = page_loop E (Some u) phrase [1, 2] W1"
    unfolding W1_def by (rule page_loop_malformed) (rule assms(1), rule assms(2))
  also have "\<dots> = page_loop E (Some u) phrase [2] W2"
    unfolding W2_def by (rule page_loop_malformed [where body = b1]) (use assms in \<open>simp_all add: q1\<close>)
  also have "\<dots> = page_loop E (Some u) phrase [] W3"
    unfolding W3_def by (rule page_loop_malformed [where body = b2]) (use assms in \<open>simp_all add: q2\<close>)
  also have "\<dots> = (Inr None, W3)" by simp
  also have "W3 = W\<lparr>trace := trace W @ [Get u, Parse, Sleep 1, Get u, Parse, Sleep 2, Get u, Parse, Sleep 4]\<rparr>"
    unfolding W3_def W2_def W1_def by simp
  finally show ?thesis .
qed

text \<open>The page fetcher around its loop.\<close>

lemma extract_text_from_url_loop:
  assumes "page_loop E a phrase [0, 1, 2] (emit W Acquire) = (r, (emit W Acquire)\<lparr>trace := trace (emit W Acquire) @ evs\<rparr>)"
  shows "extract_text_from_url E W a phrase = (r, W\<lparr>trace := trace W @ [Acquire] @ evs @ [Release]\<rparr>)"
  unfolding extract_text_from_url_def assms by (simp add: emit_def)

text \<open>What a call of the resolver returns is what it leaves in the cache, or nothing at all.\<close>

lemma resolve_result:
  "\<exists>links. fst (get_sitemap_links E W u) = Inr links
     \<and> (cache (snd (get_sitemap_links E W u)) u = Some links
        \<or> links = [] \<and> cache (snd (get_sitemap_links E W u)) = cache W \<and> cache W u = None)"
proof (cases "cache W u")
  case None
  define L where "L = sitemap_loop E u [0, 1, 2] W"
  have G: "get_sitemap_links E W u = L" unfolding L_def using None by (rule get_sitemap_links_miss)
  have "\<exists>links evs. fst L = Inr links \<and> trace (snd L) = trace W @ evs
     \<and> set evs \<subseteq> insert (Get u) (insert Parse (range Sleep))
     \<and> length (requested evs) \<le> length [0, 1, 2 :: nat]
     \<and> ([0, 1, 2 :: nat] \<noteq> [] \<longrightarrow> Get u \<in> set evs)
     \<and> (cache (snd L) = cache W \<and> links = [] \<or> cache (snd L) = (cache W)(u \<mapsto> links))"
    unfolding L_def by (rule sitemap_loop_run)
  then obtain links where
    h: "fst L = Inr links" "cache (snd L) = cache W \<and> links = [] \<or> cache (snd L) = (cache W)(u \<mapsto> links)"
    by blast
  show ?thesis unfolding G using h None by (intro exI [of _ links]) auto
next
  case (Some links)
  show ?thesis
    unfolding get_sitemap_links_hit [OF Some] using Some by simp
qed

lemma requests_bound:
  assumes "trace W' = trace W @ evs" "length (requested evs) \<le> 3"
  shows "requests W' \<le> requests W + 3"
  using assms by (simp add: requests_requested requested_append)

lemma get_sitemap_links_requests: "requests (snd (get_sitemap_links E W u)) \<le> requests W + 3"
proof -
  from get_sitemap_links_run [of E W u] obtain evs where
    "trace (snd (get_sitemap_links E W u)) = trace W @ evs" "length (requested evs) \<le> 3"
    by blast
  then show ?thesis by (rule requests_bound)
qed

lemma extract_text_from_url_requests:
  "requests (snd (extract_text_from_url E W a phrase)) \<le> requests W + 3"
proof -
  from extract_text_from_url_run [of E W a phrase] obtain evs where
    h: "trace (snd (extract_text_from_url E W a phrase)) = trace W @ [Acquire] @ evs @ [Release]"
      "length (requested evs) \<le> 3"
    by blast
  have "length (requested ([Acquire] @ evs @ [Release])) \<le> 3"
    using h(2) by (simp add: requested_append)
  with h(1) show ?thesis by (intro requests_bound [where evs = "[Acquire] @ evs @ [Release]"]) simp_all
qed

section \<open>SitemapResolver: leaf entries and the cache\<close>



text \<open>
  C4 (as amended). A call for a URL that is in the cache returns the cached list and does
  nothing else. Whatever the cache holds for the URL after a call is what the call returned,
  and the next call for the same URL returns it again without a request. A call that gets a
  document at one of its three attempts stores the list of its links, also when that list is
  empty. A call whose three attempts all fail returns the empty list after three requests
  and stores nothing.
\<close>

theorem resolve_cache:
  "(cache W u = Some cached \<longrightarrow> get_sitemap_links E W u = (Inr cached, W))
   \<and> (cache (snd (get_sitemap_links E W u)) u = Some links \<longrightarrow>
        fst (get_sitemap_links E W u) = Inr links
        \<and> get_sitemap_links E (snd (get_sitemap_links E W u)) u = (Inr links, snd (get_sitemap_links E W u)))
   \<and> (cache W u = None \<and> k < 3 \<and> (\<forall>j < k. fails E (session_get E (requests W + j) u))
        \<and> session_get E (requests W + k) u = Response 200 body \<and> fromstring E body = Some tree \<longrightarrow>
        fst (get_sitemap_links E W u) = Inr (links_of tree)
        \<and> cache (snd (get_sitemap_links E W u)) = (cache W)(u \<mapsto> links_of tree))
   \<and> (cache W u = None \<and> fails E (session_get E (requests W) u)
        \<and> fails E (session_get E (requests W + 1) u) \<and> fails E (session_get E (requests W + 2) u) \<longrightarrow>
        fst (get_sitemap_links E W u) = Inr []
        \<and> cache (snd (get_sitemap_links E W u)) = cache W
        \<and> requests (snd (get_sitemap_links E W u)) = requests W + 3)"
proof (intro conjI impI)
  assume "cache W u = Some cached"
  then show "get_sitemap_links E W u = (Inr cached, W)" by (rule get_sitemap_links_hit)
next
  assume c: "cache (snd (get_sitemap_links E W u)) u = Some links"
  from resolve_result [of E W u] c show "fst (get_sitemap_links E W u) = Inr links" by auto
  from c show "get_sitemap_links E (snd (get_sitemap_links E W u)) u = (Inr links, snd (get_sitemap_links E W u))"
    by (rule get_sitemap_links_hit)
next
  assume h: "cache W u = None \<and> k < 3 \<and> (\<forall>j < k. fails E (session_get E (requests W + j) u))
        \<and> session_get E (requests W + k) u = Response 200 body \<and> fromstring E body = Some tree"
  then have "k < length [0, 1, 2 :: nat]" by simp
  from sitemap_loop_later [OF this, of E W u body tree] h
  have "fst (sitemap_loop E u [0, 1, 2] W) = Inr (links_of tree)
     \<and> cache (snd (sitemap_loop E u [0, 1, 2] W)) = (cache W)(u \<mapsto> links_of tree)"
    by blast
  then show "fst (get_sitemap_links E W u) = Inr (links_of tree)"
    "cache (snd (get_sitemap_links E W u)) = (cache W)(u \<mapsto> links_of tree)"
    using h by (simp_all only: get_sitemap_links_miss)
next
  assume h: "cache W u = None \<and> fails E (session_get E (requests W) u)
        \<and> fails E (session_get E (requests W + 1) u) \<and> fails E (session_get E (requests W + 2) u)"
  then have "fst (sitemap_loop E u [0, 1, 2] W) = Inr []
     \<and> cache (snd (sitemap_loop E u [0, 1, 2] W)) = cache W
     \<and> requests (snd (sitemap_loop E u [0, 1, 2] W)) = requests W + 3"
    by (intro sitemap_loop_exhausted) simp_all
  then show "fst (get_sitemap_links E W u) = Inr []"
    "cache (snd (get_sitemap_links E W u)) = cache W"
    "requests (snd (get_sitemap_links E W u)) = requests W + 3"
    using h by (simp_all only: get_sitemap_links_miss)
qed

text \<open>
  A leaf sitemap resolved twice; an empty document got at the second attempt; three
  attempts that fail (status 500, a transport failure, status 404).
\<close>

theorem resolve_cache_witness:
  "cache (snd (get_sitemap_links (example_env site) world0 sitemap_2025)) sitemap_2025 = Some [Some story]
   \<and> requests (snd (get_sitemap_links (example_env site) world0 sitemap_2025)) = 1
   \<and> get_sitemap_links (example_env site) (snd (get_sitemap_links (example_env site) world0 sitemap_2025))
         sitemap_2025
       = (Inr [Some story], snd (get_sitemap_links (example_env site) world0 sitemap_2025))
   \<and> cache world0 root_url = None
   \<and> fails (example_env (flaky (ustr ''empty''))) (session_get (example_env (flaky (ustr ''empty''))) (requests world0) root_url)
   \<and> session_get (example_env (flaky (ustr ''empty''))) (requests world0 + 1) root_url = Response 200 (ustr ''empty'')
   \<and> fromstring (example_env (flaky (ustr ''empty''))) (ustr ''empty'') = Some empty_tree
   \<and> links_of empty_tree = []
   \<and> fst (get_sitemap_links (example_env (flaky (ustr ''empty''))) world0 root_url) = Inr []
   \<and> cache (snd (get_sitemap_links (example_env (flaky (ustr ''empty''))) world0 root_url)) root_url = Some []
   \<and> fails (example_env unlucky) (session_get (example_env unlucky) (requests world0) root_url)
   \<and> fails (example_env unlucky) (session_get (example_env unlucky) (requests world0 + 1) root_url)
   \<and> fails (example_env unlucky) (session_get (example_env unlucky) (requests world0 + 2) root_url)
   \<and> fst (get_sitemap_links (example_env unlucky) world0 root_url) = Inr []
   \<and> cache (snd (get_sitemap_links (example_env unlucky) world0 root_url)) root_url = None
   \<and> requests (snd (get_sitemap_links (example_env unlucky) world0 root_url)) = 3"
proof -
  let ?A = "example_env site" and ?B = "example_env (flaky (ustr ''empty''))" and ?C = "example_env unlucky"
  define G where "G = get_sitemap_links ?A world0 sitemap_2025"
  define H where "H = get_sitemap_links ?B world0 root_url"
  define K where "K = get_sitemap_links ?C world0 root_url"
  have a1: "cache (snd G) sitemap_2025 = Some [Some story]" unfolding G_def by code_simp
  have a2: "requests (snd G) = 1" unfolding G_def by code_simp
  have h1: "cache world0 root_url = None" by (simp add: world0_def)
  have r0: "requests world0 = 0" by (simp add: world0_def requests_def)
  have b0: "fails ?B (session_get ?B (requests world0) root_url)" by code_simp
  have b0': "\<forall>j < 1. fails ?B (session_get ?B (requests world0 + j) root_url)" using b0 by simp
  have b1: "session_get ?B (requests world0 + 1) root_url = Response 200 (ustr ''empty'')" by code_simp
  have b2: "fromstring ?B (ustr ''empty'') = Some empty_tree" by code_simp
  have b3: "links_of empty_tree = []" by code_simp
  have c0: "fails ?C (session_get ?C (requests world0) root_url)" by code_simp
  have c1: "fails ?C (session_get ?C (requests world0 + 1) root_url)" by code_simp
  have c2: "fails ?C (session_get ?C (requests world0 + 2) root_url)" by code_simp
  have A: "get_sitemap_links ?A (snd G) sitemap_2025 = (Inr [Some story], snd G)"
    using resolve_cache [of "snd G" sitemap_2025 "[Some story]" ?A "[Some story]" 0 "[]" empty_tree] a1
    by (elim conjE) (erule mp)
  have "fst H = Inr (links_of empty_tree) \<and> cache (snd H) = (cache world0)(root_url \<mapsto> links_of empty_tree)"
    unfolding H_def
    using resolve_cache [of world0 root_url "[]" ?B "[]" 1 "ustr ''empty''" empty_tree] h1 b0' b1 b2
    by (elim conjE) (erule mp, intro conjI, simp_all only: simp_thms)
  then have B: "fst H = Inr []" "cache (snd H) root_url = Some []" by (simp_all add: b3)
  have "fst K = Inr [] \<and> cache (snd K) = cache world0 \<and> requests (snd K) = requests world0 + 3"
    unfolding K_def
    using resolve_cache [of world0 root_url "[]" ?C "[]" 0 "[]" empty_tree] h1 c0 c1 c2
    by (elim conjE) (erule mp, intro conjI)
  then have C: "fst K = Inr []" "cache (snd K) root_url = None" "requests (snd K) = 3"
    by (simp_all add: h1 r0)
  show ?thesis
    unfolding G_def [symmetric] H_def [symmetric] K_def [symmetric]
    by (intro conjI a1 a2 A h1 b0 b1 b2 b3 B C c0 c1 c2)
qed

text \<open>
  When every attempt fails nothing is stored: the second call for the same URL makes
  three requests more.
\<close>

theorem failed_resolve_not_cached:
  "fst (get_sitemap_links (example_env (\<lambda>n u. Failure)) world0 root_url) = Inr []
   \<and> cache (snd (get_sitemap_links (example_env (\<lambda>n u. Failure)) world0 root_url)) root_url = None
   \<and> requests (snd (get_sitemap_links (example_env (\<lambda>n u. Failure)) world0 root_url)) = 3
   \<and> requests (snd (get_sitemap_links (example_env (\<lambda>n u. Failure))
        (snd (get_sitemap_links (example_env (\<lambda>n u. Failure)) world0 root_url)) root_url)) = 6"
  by code_simp

section \<open>The fetch protocol: parse failures, retries and the semaphore\<close>

lemma page_loop_ok:
  assumes "session_get E (requests W) u = Response 200 body" "html_parser E body = Some soup"
  shows "\<exists>r rest. page_loop E (Some u) phrase (k # ks) W =
       (Inr r, W\<lparr>trace := trace W @ [Get u, Parse, Match] @ rest\<rparr>)
     \<and> (rest = [] \<or> (\<exists>row. rest = [Put row]))"
proof -
  define occurrences where
    "occurrences = length (findall E (phrase_pattern E phrase) (join_lines (map (lower E) (content_texts soup))))"
  define entry where
    "entry = \<lparr>row_url = u, row_title = (case title_string soup of Some s \<Rightarrow> s | None \<Rightarrow> Some no_title),
       row_phrase = phrase, row_count = occurrences, row_date_published = extract_date E soup u\<rparr>"
  have T: "page_try E W (Some u) phrase k =
     (if 0 < occurrences
      then (Inr (Some (Some u)), W\<lparr>trace := trace W @ [Get u, Parse, Match] @ [Put entry]\<rparr>)
      else (Inr (Some None), W\<lparr>trace := trace W @ [Get u, Parse, Match] @ []\<rparr>))"
    using assms by (simp add: page_try_def emit_def Let_def occurrences_def entry_def)
  show ?thesis
  proof (cases "0 < occurrences")
    case True
    with T have "page_loop E (Some u) phrase (k # ks) W =
        (Inr (Some u), W\<lparr>trace := trace W @ [Get u, Parse, Match] @ [Put entry]\<rparr>)"
      by simp
    then show ?thesis by blast
  next
    case False
    with T have "page_loop E (Some u) phrase (k # ks) W =
        (Inr None, W\<lparr>trace := trace W @ [Get u, Parse, Match] @ []\<rparr>)"
      by simp
    then show ?thesis by blast
  qed
qed

lemma requests_acquire: "requests (emit W Acquire) = requests W"
  by (simp add: requests_emit)

lemma trace_acquire: "trace (emit W Acquire) = trace W @ [Acquire]"
  by (simp add: trace_emit)

lemma never_raises:
  "(\<exists>links. fst (get_sitemap_links E W u) = Inr links)
   \<and> (\<exists>r. fst (extract_text_from_url E W a phrase) = Inr r)"
  using get_sitemap_links_run [of E W u] extract_text_from_url_run [of E W a phrase] by blast

text \<open>
  C6 (as amended). Neither fetch ever ends with an exception. A body of a status-200
  response that the parser refuses is caught by \<open>except Exception\<close> (lines 96 and 131) like
  any other failure: the fetch delays \<open>2 ** attempt\<close> and tries again. When the bodies of
  all three attempts are refused, the resolver returns the empty list and the page fetcher
  \<open>None\<close>, after delays of 1, 2 and 4; when the second body is a document, the resolver
  returns its links.
\<close>

theorem parse_failure_retried:
  "(\<exists>links. fst (get_sitemap_links E W u) = Inr links)
   \<and> (\<exists>r. fst (extract_text_from_url E W a phrase) = Inr r)
   \<and> (cache W u = None
        \<and> session_get E (requests W) u = Response 200 b0 \<and> fromstring E b0 = None
        \<and> session_get E (requests W + 1) u = Response 200 b1 \<and> fromstring E b1 = None
        \<and> session_get E (requests W + 2) u = Response 200 b2 \<and> fromstring E b2 = None \<longrightarrow>
        get_sitemap_links E W u =
          (Inr [], W\<lparr>trace := trace W @
             [Get u, Parse, Sleep 1, Get u, Parse, Sleep 2, Get u, Parse, Sleep 4]\<rparr>))
   \<and> (session_get E (requests W) u = Response 200 b0 \<and> html_parser E b0 = None
        \<and> session_get E (requests W + 1) u = Response 200 b1 \<and> html_parser E b1 = None
        \<and> session_get E (requests W + 2) u = Response 200 b2 \<and> html_parser E b2 = None \<longrightarrow>
        extract_text_from_url E W (Some u) phrase =
          (Inr None, W\<lparr>trace := trace W @ [Acquire] @
             [Get u, Parse, Sleep 1, Get u, Parse, Sleep 2, Get u, Parse, Sleep 4] @ [Release]\<rparr>))
   \<and> (cache W u = None
        \<and> session_get E (requests W) u = Response 200 b0 \<and> fromstring E b0 = None
        \<and> session_get E (requests W + 1) u = Response 200 b1 \<and> fromstring E b1 = Some tree \<longrightarrow>
        fst (get_sitemap_links E W u) = Inr (links_of tree))"
proof (intro conjI impI)
  show "\<exists>links. fst (get_sitemap_links E W u) = Inr links"
    and "\<exists>r. fst (extract_text_from_url E W a phrase) = Inr r"
    using never_raises [of E W u a phrase] by blast+
next
  assume h: "cache W u = None
        \<and> session_get E (requests W) u = Response 200 b0 \<and> fromstring E b0 = None
        \<and> session_get E (requests W + 1) u = Response 200 b1 \<and> fromstring E b1 = None
        \<and> session_get E (requests W + 2) u = Response 200 b2 \<and> fromstring E b2 = None"
  then have "sitemap_loop E u [0, 1, 2] W =
     (Inr [], W\<lparr>trace := trace W @ [Get u, Parse, Sleep 1, Get u, Parse, Sleep 2, Get u, Parse, Sleep 4]\<rparr>)"
    by (intro sitemap_loop_three_malformed [where ?b0.0 = b0 and ?b1.0 = b1 and ?b2.0 = b2]) simp_all
  then show "get_sitemap_links E W u =
          (Inr [], W\<lparr>trace := trace W @
             [Get u, Parse, Sleep 1, Get u, Parse, Sleep 2, Get u, Parse, Sleep 4]\<rparr>)"
    using h by (simp only: get_sitemap_links_miss)
next
  assume h: "session_get E (requests W) u = Response 200 b0 \<and> html_parser E b0 = None
        \<and> session_get E (requests W + 1) u = Response 200 b1 \<and> html_parser E b1 = None
        \<and> session_get E (requests W + 2) u = Response 200 b2 \<and> html_parser E b2 = None"
  then have "page_loop E (Some u) phrase [0, 1, 2] (emit W Acquire) =
     (Inr None, (emit W Acquire)\<lparr>trace := trace (emit W Acquire) @
        [Get u, Parse, Sleep 1, Get u, Parse, Sleep 2, Get u, Parse, Sleep 4]\<rparr>)"
    by (intro page_loop_three_malformed [where ?b0.0 = b0 and ?b1.0 = b1 and ?b2.0 = b2])
      (simp_all only: requests_acquire)
  then show "extract_text_from_url E W (Some u) phrase =
          (Inr None, W\<lparr>trace := trace W @ [Acquire] @
             [Get u, Parse, Sleep 1, Get u, Parse, Sleep 2, Get u, Parse, Sleep 4] @ [Release]\<rparr>)"
    by (rule extract_text_from_url_loop)
next
  assume h: "cache W u = None
        \<and> session_get E (requests W) u = Response 200 b0 \<and> fromstring E b0 = None
        \<and> session_get E (requests W + 1) u = Response 200 b1 \<and> fromstring E b1 = Some tree"
  then have f: "\<forall>j < 1. fails E (session_get E (requests W + j) u)" by (simp add: fails_def)
  have "(1 :: nat) < length [0, 1, 2 :: nat]" by simp
  from sitemap_loop_later [OF this f, of b1 tree] h
  have "fst (sitemap_loop E u [0, 1, 2] W) = Inr (links_of tree)" by blast
  then show "fst (get_sitemap_links E W u) = Inr (links_of tree)"
    using h by (simp only: get_sitemap_links_miss)
qed

text \<open>
  Three bodies that no parser accepts, for a sitemap and for a page; one such body and then
  a leaf sitemap.
\<close>

theorem parse_failure_retried_witness:
  "cache world0 root_url = None
   \<and> session_get (example_env garbled) (requests world0) root_url = Response 200 (ustr ''<<'')
   \<and> session_get (example_env garbled) (requests world0 + 1) root_url = Response 200 (ustr ''<<'')
   \<and> session_get (example_env garbled) (requests world0 + 2) root_url = Response 200 (ustr ''<<'')
   \<and> fromstring (example_env garbled) (ustr ''<<'') = None
   \<and> html_parser (example_env garbled) (ustr ''<<'') = None
   \<and> fst (get_sitemap_links (example_env garbled) world0 root_url) = Inr []
   \<and> trace (snd (get_sitemap_links (example_env garbled) world0 root_url)) =
       [Get root_url, Parse, Sleep 1, Get root_url, Parse, Sleep 2, Get root_url, Parse, Sleep 4]
   \<and> fst (extract_text_from_url (example_env garbled) world0 (Some root_url) (ustr ''rishi'')) = Inr None
   \<and> trace (snd (extract_text_from_url (example_env garbled) world0 (Some root_url) (ustr ''rishi''))) =
       [Acquire, Get root_url, Parse, Sleep 1, Get root_url, Parse, Sleep 2, Get root_url, Parse, Sleep 4,
        Release]
   \<and> session_get (example_env garbled_once) (requests world0) root_url = Response 200 (ustr ''<<'')
   \<and> fromstring (example_env garbled_once) (ustr ''<<'') = None
   \<and> session_get (example_env garbled_once) (requests world0 + 1) root_url = Response 200 (ustr ''leaf'')
   \<and> fromstring (example_env garbled_once) (ustr ''leaf'') = Some leaf_tree
   \<and> links_of leaf_tree = [Some story]
   \<and> fst (get_sitemap_links (example_env garbled_once) world0 root_url) = Inr [Some story]"
proof -
  let ?A = "example_env garbled" and ?B = "example_env garbled_once"
  define G where "G = get_sitemap_links ?A world0 root_url"
  define X where "X = extract_text_from_url ?A world0 (Some root_url) (ustr ''rishi'')"
  define H where "H = get_sitemap_links ?B world0 root_url"
  have h: "cache world0 root_url = None" by (simp add: world0_def)
  have t: "trace world0 = []" by (simp add: world0_def)
  have a0: "session_get ?A (requests world0) root_url = Response 200 (ustr ''<<'')" by code_simp
  have a1: "session_get ?A (requests world0 + 1) root_url = Response 200 (ustr ''<<'')" by code_simp
  have a2: "session_get ?A (requests world0 + 2) root_url = Response 200 (ustr ''<<'')" by code_simp
  have a3: "fromstring ?A (ustr ''<<'') = None" by code_simp
  have a4: "html_parser ?A (ustr ''<<'') = None" by code_simp
  have b0: "session_get ?B (requests world0) root_url = Response 200 (ustr ''<<'')" by code_simp
  have b1: "fromstring ?B (ustr ''<<'') = None" by code_simp
  have b2: "session_get ?B (requests world0 + 1) root_url = Response 200 (ustr ''leaf'')" by code_simp
  have b3: "fromstring ?B (ustr ''leaf'') = Some leaf_tree" by code_simp
  have b4: "links_of leaf_tree = [Some story]" by code_simp
  note A = parse_failure_retried [of ?A world0 root_url "Some root_url" "ustr ''rishi''"
      "ustr ''<<''" "ustr ''<<''" "ustr ''<<''" leaf_tree]
  note B = parse_failure_retried [of ?B world0 root_url "Some root_url" "ustr ''rishi''"
      "ustr ''<<''" "ustr ''leaf''" "ustr ''<<''" leaf_tree]
  have "G = (Inr [], world0\<lparr>trace := trace world0 @
      [Get root_url, Parse, Sleep 1, Get root_url, Parse, Sleep 2, Get root_url, Parse, Sleep 4]\<rparr>)"
    unfolding G_def using A h a0 a1 a2 a3 by (elim conjE) (erule mp, intro conjI)
  then have g: "fst G = Inr []"
    "trace (snd G) = [Get root_url, Parse, Sleep 1, Get root_url, Parse, Sleep 2, Get root_url, Parse, Sleep 4]"
    by (simp_all add: t)
  have "X = (Inr None, world0\<lparr>trace := trace world0 @ [Acquire] @
      [Get root_url, Parse, Sleep 1, Get root_url, Parse, Sleep 2, Get root_url, Parse, Sleep 4] @ [Release]\<rparr>)"
    unfolding X_def using A a0 a1 a2 a4 by (elim conjE) (erule mp, intro conjI)
  then have x: "fst X = Inr None"
    "trace (snd X) = [Acquire, Get root_url, Parse, Sleep 1, Get root_url, Parse, Sleep 2, Get root_url, Parse,
       Sleep 4, Release]"
    by (simp_all add: t)
  have "fst H = Inr (links_of leaf_tree)"
    unfolding H_def using B h b0 b1 b2 b3 by (elim conjE) (erule mp, intro conjI)
  then have k: "fst H = Inr [Some story]" by (simp add: b4)
  show ?thesis
    unfolding G_def [symmetric] X_def [symmetric] H_def [symmetric]
    by (intro conjI h a0 a1 a2 a3 a4 g x b0 b1 b2 b3 b4 k)
qed

text \<open>
  A sitemap and a page whose body no parser accepts: both fetches return normally, with no
  links and no result, after three attempts and the delays between them.
\<close>

theorem parse_failure_not_propagated:
  "fst (get_sitemap_links (example_env garbled) world0 sitemap_2025) = Inr []
   \<and> fst (get_sitemap_links (example_env garbled) world0 sitemap_2025) \<noteq> Inl ParseError
   \<and> requested (trace (snd (get_sitemap_links (example_env garbled) world0 sitemap_2025))) =
       [sitemap_2025, sitemap_2025, sitemap_2025]
   \<and> fst (extract_text_from_url (example_env garbled) world0 (Some story) (ustr ''rishi'')) = Inr None
   \<and> fst (extract_text_from_url (example_env garbled) world0 (Some story) (ustr ''rishi'')) \<noteq> Inl ParseError
   \<and> requested (trace (snd (extract_text_from_url (example_env garbled) world0 (Some story) (ustr ''rishi'')))) =
       [story, story, story]"
  by code_simp

text \<open>
  C2 (as amended). A fetch makes at most three requests and never ends with an exception.
  When the replies to its three attempts are all other than status 200, every attempt is
  followed by the next one, whatever the status: after a transport failure, status 429 or
  status 500 the fetch first delays \<open>2 ** attempt\<close> (\<open>attempt\<close> from 0, also after the
  last attempt), after any other status it goes on at once; then the resolver returns the
  empty list and the page fetcher \<open>None\<close>.
\<close>

theorem fetch_attempts:
  "requests (snd (get_sitemap_links E W u)) \<le> requests W + 3
   \<and> requests (snd (extract_text_from_url E W a phrase)) \<le> requests W + 3
   \<and> (\<exists>links. fst (get_sitemap_links E W u) = Inr links)
   \<and> (\<exists>r. fst (extract_text_from_url E W a phrase) = Inr r)
   \<and> (cache W u = None \<and> not_ok (session_get E (requests W) u)
        \<and> not_ok (session_get E (requests W + 1) u) \<and> not_ok (session_get E (requests W + 2) u) \<longrightarrow>
        get_sitemap_links E W u =
          (Inr [], W\<lparr>trace := trace W @ attempt_events u 0 (session_get E (requests W) u)
             @ attempt_events u 1 (session_get E (requests W + 1) u)
             @ attempt_events u 2 (session_get E (requests W + 2) u)\<rparr>))
   \<and> (not_ok (session_get E (requests W) u)
        \<and> not_ok (session_get E (requests W + 1) u) \<and> not_ok (session_get E (requests W + 2) u) \<longrightarrow>
        extract_text_from_url E W (Some u) phrase =
          (Inr None, W\<lparr>trace := trace W @ [Acquire] @
             (attempt_events u 0 (session_get E (requests W) u)
              @ attempt_events u 1 (session_get E (requests W + 1) u)
              @ attempt_events u 2 (session_get E (requests W + 2) u)) @ [Release]\<rparr>))"
proof (intro conjI impI)
  show "requests (snd (get_sitemap_links E W u)) \<le> requests W + 3"
    by (rule get_sitemap_links_requests)
  show "requests (snd (extract_text_from_url E W a phrase)) \<le> requests W + 3"
    by (rule extract_text_from_url_requests)
  show "\<exists>links. fst (get_sitemap_links E W u) = Inr links"
    and "\<exists>r. fst (extract_text_from_url E W a phrase) = Inr r"
    using never_raises [of E W u a phrase] by blast+
next
  assume h: "cache W u = None \<and> not_ok (session_get E (requests W) u)
        \<and> not_ok (session_get E (requests W + 1) u) \<and> not_ok (session_get E (requests W + 2) u)"
  then have "sitemap_loop E u [0, 1, 2] W =
     (Inr [], W\<lparr>trace := trace W @ attempt_events u 0 (session_get E (requests W) u)
          @ attempt_events u 1 (session_get E (requests W + 1) u)
          @ attempt_events u 2 (session_get E (requests W + 2) u)\<rparr>)"
    by (intro sitemap_loop_three_not_ok) simp_all
  then show "get_sitemap_links E W u =
          (Inr [], W\<lparr>trace := trace W @ attempt_events u 0 (session_get E (requests W) u)
             @ attempt_events u 1 (session_get E (requests W + 1) u)
             @ attempt_events u 2 (session_get E (requests W + 2) u)\<rparr>)"
    using h by (simp only: get_sitemap_links_miss)
next
  assume h: "not_ok (session_get E (requests W) u)
        \<and> not_ok (session_get E (requests W + 1) u) \<and> not_ok (session_get E (requests W + 2) u)"
  then have "page_loop E (Some u) phrase [0, 1, 2] (emit W Acquire) =
     (Inr None, (emit W Acquire)\<lparr>trace := trace (emit W Acquire) @
        (attempt_events u 0 (session_get E (requests (emit W Acquire)) u)
          @ attempt_events u 1 (session_get E (requests (emit W Acquire) + 1) u)
          @ attempt_events u 2 (session_get E (requests (emit W Acquire) + 2) u))\<rparr>)"
    by (intro page_loop_three_not_ok) (simp_all only: requests_acquire)
  then show "extract_text_from_url E W (Some u) phrase =
          (Inr None, W\<lparr>trace := trace W @ [Acquire] @
             (attempt_events u 0 (session_get E (requests W) u)
              @ attempt_events u 1 (session_get E (requests W + 1) u)
              @ attempt_events u 2 (session_get E (requests W + 2) u)) @ [Release]\<rparr>)"
    unfolding requests_acquire by (rule extract_text_from_url_loop)
qed

text \<open>
  Status 500, then a transport failure, then status 404.
\<close>

theorem fetch_attempts_witness:
  "cache world0 root_url = None
   \<and> session_get (example_env unlucky) (requests world0) root_url = Response 500 []
   \<and> session_get (example_env unlucky) (requests world0 + 1) root_url = Failure
   \<and> session_get (example_env unlucky) (requests world0 + 2) root_url = Response 404 []
   \<and> fst (get_sitemap_links (example_env unlucky) world0 root_url) = Inr []
   \<and> trace (snd (get_sitemap_links (example_env unlucky) world0 root_url)) =
       [Get root_url, Sleep 1, Get root_url, Sleep 2, Get root_url]
   \<and> fst (extract_text_from_url (example_env unlucky) world0 (Some root_url) (ustr ''rishi'')) = Inr None
   \<and> trace (snd (extract_text_from_url (example_env unlucky) world0 (Some root_url) (ustr ''rishi''))) =
       [Acquire, Get root_url, Sleep 1, Get root_url, Sleep 2, Get root_url, Release]
   \<and> requests (snd (get_sitemap_links (example_env unlucky) world0 root_url)) \<le> 3"
proof -
  let ?A = "example_env unlucky"
  define G where "G = get_sitemap_links ?A world0 root_url"
  define X where "X = extract_text_from_url ?A world0 (Some root_url) (ustr ''rishi'')"
  have h: "cache world0 root_url = None" by (simp add: world0_def)
  have t: "trace world0 = []" by (simp add: world0_def)
  have r: "requests world0 = 0" by (simp add: world0_def requests_def)
  have a0: "session_get ?A (requests world0) root_url = Response 500 []" by code_simp
  have a1: "session_get ?A (requests world0 + 1) root_url = Failure" by code_simp
  have a2: "session_get ?A (requests world0 + 2) root_url = Response 404 []" by code_simp
  have n: "not_ok (Response 500 [])" "not_ok Failure" "not_ok (Response 404 [])" by (simp_all add: not_ok_def)
  have ev: "attempt_events root_url 0 (Response 500 []) @ attempt_events root_url 1 Failure
      @ attempt_events root_url 2 (Response 404 []) = [Get root_url, Sleep 1, Get root_url, Sleep 2, Get root_url]"
    by (simp add: attempt_events_def backs_off_def)
  note A = fetch_attempts [of ?A world0 root_url "Some root_url" "ustr ''rishi''", unfolded a0 a1 a2 ev]
  have "G = (Inr [], world0\<lparr>trace := trace world0 @ [Get root_url, Sleep 1, Get root_url, Sleep 2, Get root_url]\<rparr>)"
    unfolding G_def using A h n by (elim conjE) (erule mp, intro conjI)
  then have g: "fst G = Inr []" "trace (snd G) = [Get root_url, Sleep 1, Get root_url, Sleep 2, Get root_url]"
    by (simp_all add: t)
  have "X = (Inr None, world0\<lparr>trace := trace world0 @ [Acquire] @
      [Get root_url, Sleep 1, Get root_url, Sleep 2, Get root_url] @ [Release]\<rparr>)"
    unfolding X_def using A n by (elim conjE) (erule mp, intro conjI)
  then have x: "fst X = Inr None"
    "trace (snd X) = [Acquire, Get root_url, Sleep 1, Get root_url, Sleep 2, Get root_url, Release]"
    by (simp_all add: t)
  have q: "requests (snd G) \<le> 3" unfolding G_def using A r by simp
  show ?thesis
    unfolding G_def [symmetric] X_def [symmetric]
    by (intro conjI h a0 a1 a2 g x q)
qed

text \<open>
  Status 404 at every attempt: the resolver and the page fetcher request the URL three
  times, one request right after the other.
\<close>

theorem not_found_is_retried:
  "get_sitemap_links (example_env not_found) world0 sitemap_2025
     = (Inr [], snd (get_sitemap_links (example_env not_found) world0 sitemap_2025))
   \<and> trace (snd (get_sitemap_links (example_env not_found) world0 sitemap_2025)) =
       [Get sitemap_2025, Get sitemap_2025, Get sitemap_2025]
   \<and> fst (extract_text_from_url (example_env not_found) world0 (Some story) (ustr ''rishi'')) = Inr None
   \<and> trace (snd (extract_text_from_url (example_env not_found) world0 (Some story) (ustr ''rishi''))) =
       [Acquire, Get story, Get story, Get story, Release]"
proof -
  have "fst (get_sitemap_links (example_env not_found) world0 sitemap_2025) = Inr []" by code_simp
  then have "get_sitemap_links (example_env not_found) world0 sitemap_2025
     = (Inr [], snd (get_sitemap_links (example_env not_found) world0 sitemap_2025))"
    by (metis prod.collapse)
  moreover have "trace (snd (get_sitemap_links (example_env not_found) world0 sitemap_2025)) =
       [Get sitemap_2025, Get sitemap_2025, Get sitemap_2025]" by code_simp
  moreover have "fst (extract_text_from_url (example_env not_found) world0 (Some story) (ustr ''rishi'')) = Inr None"
    by code_simp
  moreover have "trace (snd (extract_text_from_url (example_env not_found) world0 (Some story) (ustr ''rishi''))) =
       [Acquire, Get story, Get story, Get story, Release]" by code_simp
  ultimately show ?thesis by (intro conjI)
qed

text \<open>
  C5 (as amended). The semaphore has 50 slots. A page fetch takes a slot before its first
  attempt and gives it back after its last, once: everything it does lies in between,
  the requests, the delays and, for a page that is got, the parser, the count of the phrase
  and \<open>queue.put\<close>. The resolver never takes a slot.
\<close>

theorem semaphore_scope:
  "semaphore = 50
   \<and> (\<exists>r evs. fst (extract_text_from_url E W a phrase) = Inr r
        \<and> trace (snd (extract_text_from_url E W a phrase)) = trace W @ [Acquire] @ evs @ [Release]
        \<and> Acquire \<notin> set evs \<and> Release \<notin> set evs)
   \<and> (session_get E (requests W) u = Response 200 body \<and> html_parser E body = Some soup \<longrightarrow>
        (\<exists>r rest. extract_text_from_url E W (Some u) phrase =
             (Inr r, W\<lparr>trace := trace W @ [Acquire] @ ([Get u, Parse, Match] @ rest) @ [Release]\<rparr>)
           \<and> (rest = [] \<or> (\<exists>row. rest = [Put row]))))
   \<and> (\<exists>evs. trace (snd (get_sitemap_links E W u)) = trace W @ evs
        \<and> Acquire \<notin> set evs \<and> Release \<notin> set evs)"
proof (intro conjI impI)
  show "semaphore = 50" by (simp add: semaphore_def)
  show "\<exists>r evs. fst (extract_text_from_url E W a phrase) = Inr r
        \<and> trace (snd (extract_text_from_url E W a phrase)) = trace W @ [Acquire] @ evs @ [Release]
        \<and> Acquire \<notin> set evs \<and> Release \<notin> set evs"
    using extract_text_from_url_run [of E W a phrase] by blast
  show "\<exists>evs. trace (snd (get_sitemap_links E W u)) = trace W @ evs
        \<and> Acquire \<notin> set evs \<and> Release \<notin> set evs"
  proof -
    from get_sitemap_links_run [of E W u] obtain evs where
      e: "trace (snd (get_sitemap_links E W u)) = trace W @ evs"
        "set evs \<subseteq> insert (Get u) (insert Parse (range Sleep))"
      by blast
    from e(2) have "Acquire \<notin> set evs \<and> Release \<notin> set evs" by auto
    with e(1) show ?thesis by blast
  qed
next
  assume h: "session_get E (requests W) u = Response 200 body \<and> html_parser E body = Some soup"
  then have "session_get E (requests (emit W Acquire)) u = Response 200 body" "html_parser E body = Some soup"
    by (simp_all only: requests_acquire)
  from page_loop_ok [OF this, of phrase 0 "[1, 2]"] obtain r rest where
    p: "page_loop E (Some u) phrase [0, 1, 2] (emit W Acquire) =
       (Inr r, (emit W Acquire)\<lparr>trace := trace (emit W Acquire) @ ([Get u, Parse, Match] @ rest)\<rparr>)"
      "rest = [] \<or> (\<exists>row. rest = [Put row])"
    by blast
  from extract_text_from_url_loop [OF p(1)] p(2)
  show "\<exists>r rest. extract_text_from_url E W (Some u) phrase =
             (Inr r, W\<lparr>trace := trace W @ [Acquire] @ ([Get u, Parse, Match] @ rest) @ [Release]\<rparr>)
           \<and> (rest = [] \<or> (\<exists>row. rest = [Put row]))"
    by blast
qed

text \<open>
  The page of the examples, got at the first attempt.
\<close>

theorem semaphore_scope_witness:
  "session_get (example_env site) (requests world0) story = Response 200 (ustr ''page'')
   \<and> html_parser (example_env site) (ustr ''page'') = Some example_soup
   \<and> (\<exists>r rest. extract_text_from_url (example_env site) world0 (Some story) (ustr ''rishi'') =
         (Inr r, world0\<lparr>trace := trace world0 @ [Acquire] @ ([Get story, Parse, Match] @ rest) @ [Release]\<rparr>)
       \<and> (rest = [] \<or> (\<exists>row. rest = [Put row])))"
proof -
  have a: "session_get (example_env site) (requests world0) story = Response 200 (ustr ''page'')" by code_simp
  have b: "html_parser (example_env site) (ustr ''page'') = Some example_soup"
    by (simp add: example_env_def ascii_env_def example_html_def)
  have "\<exists>r rest. extract_text_from_url (example_env site) world0 (Some story) (ustr ''rishi'') =
         (Inr r, world0\<lparr>trace := trace world0 @ [Acquire] @ ([Get story, Parse, Match] @ rest) @ [Release]\<rparr>)
       \<and> (rest = [] \<or> (\<exists>row. rest = [Put row]))"
    using semaphore_scope [of "example_env site" world0 "Some story" "ustr ''rishi''" story "ustr ''page''" example_soup]
      a b
    by (elim conjE) (erule mp, intro conjI)
  with a b show ?thesis by (intro conjI)
qed

text \<open>
  A page that holds the phrase: the parser, the count and \<open>queue.put\<close> all run while the
  slot is held. A sitemap: the resolver requests and parses it without ever taking a slot.
\<close>

theorem parse_and_match_while_held:
  "trace (snd (extract_text_from_url (example_env site) world0 (Some story) (ustr ''rishi''))) =
     [Acquire, Get story, Parse, Match,
      Put \<lparr>row_url = story, row_title = Some (ustr ''Story''), row_phrase = ustr ''rishi'', row_count = 1,
           row_date_published = ustr ''2025-03-14''\<rparr>,
      Release]
   \<and> while_held False (trace (snd (extract_text_from_url (example_env site) world0 (Some story) (ustr ''rishi'')))) =
     [Get story, Parse, Match,
      Put \<lparr>row_url = story, row_title = Some (ustr ''Story''), row_phrase = ustr ''rishi'', row_count = 1,
           row_date_published = ustr ''2025-03-14''\<rparr>]
   \<and> trace (snd (get_sitemap_links (example_env site) world0 root_url)) = [Get root_url, Parse]
   \<and> while_held False (trace (snd (get_sitemap_links (example_env site) world0 root_url))) = []"
  by code_simp

end
